theory Spec2Isabelle
  imports Main "HOL-Library.Monad_Syntax"
begin

section \<open>Tokens\<close>

text \<open>
  Modelled from the spec: the token type and its two predicates are declared in a file of the
  markup package that is not among the sources. The kinds are the eight \<open>TOKEN_*\<close> constants the
  parser mentions; a token is a kind with a text payload. \<open>Is\<close> compares the kind of one token,
  \<open>Are\<close> is the lookahead predicate: the next tokens match the given kind sequence, and a
  sequence shorter than the pattern does not match.
\<close>

datatype TokenKind =
    TOKEN_INDENT
  | TOKEN_EOL
  | TOKEN_SECTION
  | TOKEN_TEXT
  | TOKEN_STAR
  | TOKEN_UNDERLINE
  | TOKEN_LISTITEM
  | TOKEN_BLOCKITEM

record Token =
  TKind :: TokenKind
  TText :: string

definition NewToken :: "TokenKind \<Rightarrow> Token" where
  "NewToken k = \<lparr>TKind = k, TText = ''''\<rparr>"

definition NewTokenWithText :: "TokenKind \<Rightarrow> string \<Rightarrow> Token" where
  "NewTokenWithText k s = \<lparr>TKind = k, TText = s\<rparr>"

definition Is :: "Token \<Rightarrow> TokenKind \<Rightarrow> bool" where
  "Is t k = (TKind t = k)"

fun Are :: "Token list \<Rightarrow> TokenKind list \<Rightarrow> bool" where
  "Are ts [] = True"
| "Are [] (k # ks) = False"
| "Are (t # ts) (k # ks) = (TKind t = k \<and> Are ts ks)"

section \<open>The node tree\<close>

text \<open>
  Nodes live in a store: a list of nodes, a node's address being its index. \<open>NewNode\<close> builds
  the node value, \<open>alloc\<close> is Go's \<open>&Node{...}\<close>: the node goes to the end of the store and its
  address is returned. \<open>Parent\<close> is a pointer that may be nil, \<open>Childs\<close> the slice of child
  pointers.
\<close>

datatype NodeKind =
    NODE_GROUP
  | NODE_BLOCK
  | NODE_SECTION
  | NODE_TEXT
  | NODE_TEXTBOLD
  | NODE_TEXTUNDERLINE
  | NODE_LIST
  | NODE_LISTITEM
  | NODE_SPACE
  | NODE_BREAK

type_synonym addr = nat

record Node =
  Kind :: NodeKind
  Text :: string
  Parent :: "addr option"
  Childs :: "addr list"

type_synonym store = "Node list"

datatype panic = SliceBoundsOutOfRange | NilPointerDereference

definition NewNodeWithText :: "NodeKind \<Rightarrow> string \<Rightarrow> Node" where
  "NewNodeWithText kind text = \<lparr>Kind = kind, Text = text, Parent = None, Childs = []\<rparr>"

definition NewNode :: "NodeKind \<Rightarrow> Node" where
  "NewNode kind = NewNodeWithText kind ''''"

definition alloc :: "store \<Rightarrow> Node \<Rightarrow> store \<times> addr" where
  "alloc h n = (h @ [n], length h)"

definition AddChild :: "store \<Rightarrow> addr \<Rightarrow> addr \<Rightarrow> store" where
  "AddChild h n c =
     (let h1 = h[c := (h ! c)\<lparr>Parent := Some n\<rparr>]
      in h1[n := (h1 ! n)\<lparr>Childs := Childs (h1 ! n) @ [c]\<rparr>])"

definition IsTextNode :: "Node \<Rightarrow> bool" where
  "IsTextNode n =
     (case Kind n of
        NODE_TEXT \<Rightarrow> True
      | NODE_TEXTBOLD \<Rightarrow> True
      | NODE_TEXTUNDERLINE \<Rightarrow> True
      | _ \<Rightarrow> False)"

section \<open>Line groups\<close>

record TokenGroup =
  tokens :: "Token list"
  level :: nat
  pos :: nat

text \<open>
  The first loop counts the leading indents, the second collects the tokens up to the next
  end of line. The count returned is \<open>level + len(tokens)\<close>.
\<close>

fun countIndents :: "Token list \<Rightarrow> nat \<Rightarrow> nat" where
  "countIndents [] lvl = lvl"
| "countIndents (t # ts) lvl = (if \<not> Is t TOKEN_INDENT then lvl else countIndents ts (Suc lvl))"

fun collectLine :: "Token list \<Rightarrow> Token list \<Rightarrow> Token list" where
  "collectLine [] acc = acc"
| "collectLine (t # ts) acc = (if Is t TOKEN_EOL then acc else collectLine ts (acc @ [t]))"

definition NewTokenGroup :: "Token list \<Rightarrow> TokenGroup \<times> nat" where
  "NewTokenGroup inpTokens =
     (let lvl = countIndents inpTokens 0;
          toks = collectLine (drop lvl inpTokens) []
      in (\<lparr>tokens = toks, level = lvl, pos = 0\<rparr>, lvl + length toks))"

definition Tokens :: "TokenGroup \<Rightarrow> Token list" where
  "Tokens g =
     (let i = (if pos g \<ge> length (tokens g) then length (tokens g) else pos g)
      in drop i (tokens g))"

definition Next :: "TokenGroup \<Rightarrow> Token option \<times> TokenGroup" where
  "Next g =
     (if pos g \<ge> length (tokens g) then (None, g)
      else (Some (tokens g ! pos g), g\<lparr>pos := pos g + 1\<rparr>))"

section \<open>The parser\<close>

text \<open>
  The parser holds the root, the current node and the one-shot callback \<open>onAdd\<close>, which is nil
  or the one closure that \<open>Parse\<close> ever stores there. The store of the nodes is threaded with it.
  \<open>NewParser\<close> leaves root and current nil; \<open>Parse\<close> assigns both before anything reads them,
  so they are plain addresses here.
\<close>

datatype callback = SpaceBeforeText

record Parser =
  heap :: store
  root :: addr
  curr :: addr
  onAdd :: "callback option"

definition NewParser :: Parser where
  "NewParser = \<lparr>heap = [], root = 0, curr = 0, onAdd = None\<rparr>"

text \<open>
  \<open>addNode\<close> allocates the node, then runs and clears a pending callback, then appends the node
  to the current node. The callback of \<open>Parse\<close> calls \<open>addNode\<close> again for a Space when the new
  node is a text node; it runs with \<open>onAdd\<close> already nil, so the recursion is one deep.
\<close>

function addNode :: "Parser \<Rightarrow> NodeKind \<Rightarrow> string list \<Rightarrow> Parser \<times> addr" where
  "addNode p kind text =
     (let (h, node) = alloc (heap p)
                        (if length text = 0 then NewNode kind else NewNodeWithText kind (hd text));
          p1 = p\<lparr>heap := h\<rparr>;
          p2 = (case onAdd p1 of
                  None \<Rightarrow> p1
                | Some SpaceBeforeText \<Rightarrow>
                    (if IsTextNode (heap p1 ! node)
                     then fst (addNode (p1\<lparr>onAdd := None\<rparr>) NODE_SPACE [])
                     else p1\<lparr>onAdd := None\<rparr>))
      in (p2\<lparr>heap := AddChild (heap p2) (curr p2) node\<rparr>, node))"
  by pat_completeness auto
termination
  by (relation "measure (\<lambda>(p, kind, text). case onAdd p of None \<Rightarrow> 0 | Some _ \<Rightarrow> 1)")
     (auto simp: alloc_def)

declare addNode.simps [simp del]

definition lastNode :: "Parser \<Rightarrow> addr" where
  "lastNode p =
     (if length (Childs (heap p ! curr p)) > 0
      then Childs (heap p ! curr p) ! (length (Childs (heap p ! curr p)) - 1)
      else curr p)"

definition openGroup :: "Parser \<Rightarrow> Parser" where
  "openGroup p = (let (p1, n) = addNode p NODE_GROUP [] in p1\<lparr>curr := n\<rparr>)"

text \<open>
  The loop of \<open>closeGroup\<close> follows parent pointers until it meets a group or a node without
  parent. Nothing in its text bounds the walk, so it is a partial function: \<open>None\<close> is a walk
  that never ends.
\<close>

partial_function (option) closeGroupLoop :: "Parser \<Rightarrow> Parser option" where
  "closeGroupLoop p =
     (case Parent (heap p ! curr p) of
        None \<Rightarrow> Some p
      | Some q \<Rightarrow>
          if Kind (heap p ! curr p) = NODE_GROUP then Some p
          else closeGroupLoop (p\<lparr>curr := q\<rparr>))"

definition closeGroup :: "Parser \<Rightarrow> Parser option" where
  "closeGroup p =
     (case closeGroupLoop p of
        None \<Rightarrow> None
      | Some p1 \<Rightarrow>
          (case Parent (heap p1 ! curr p1) of
             None \<Rightarrow> Some p1
           | Some q \<Rightarrow> Some (p1\<lparr>curr := q\<rparr>)))"

definition closeAllGroups :: "Parser \<Rightarrow> Parser" where
  "closeAllGroups p = p\<lparr>curr := root p\<rparr>"

definition GetRoot :: "Parser \<Rightarrow> addr" where
  "GetRoot p = root p"

section \<open>Parse\<close>

text \<open>
  The first loop of \<open>Parse\<close> splits the tokens into line groups. Each round drops
  \<open>consumed + 1\<close> tokens with the slice expression \<open>tokens[consumed+1:]\<close>, which panics when
  \<open>consumed + 1\<close> is beyond the length of the slice.
\<close>

function splitGroups :: "Token list \<Rightarrow> TokenGroup list \<Rightarrow> panic + TokenGroup list" where
  "splitGroups toks groups =
     (if length toks > 0
      then (let (g, consumed) = NewTokenGroup toks
            in if consumed + 1 > length toks then Inl SliceBoundsOutOfRange
               else splitGroups (drop (consumed + 1) toks) (groups @ [g]))
      else Inr groups)"
  by pat_completeness auto
termination
  by (relation "measure (\<lambda>(toks, groups). length toks)") auto

declare splitGroups.simps [simp del]

text \<open>The switch on the level difference: open or close one group per unit.\<close>

fun openGroups :: "nat \<Rightarrow> Parser \<Rightarrow> Parser" where
  "openGroups 0 p = p"
| "openGroups (Suc n) p = openGroups n (openGroup p)"

fun closeGroups :: "nat \<Rightarrow> Parser \<Rightarrow> Parser option" where
  "closeGroups 0 p = Some p"
| "closeGroups (Suc n) p =
     (case closeGroup p of None \<Rightarrow> None | Some p1 \<Rightarrow> closeGroups n p1)"

definition levelChange :: "int \<Rightarrow> Parser \<Rightarrow> Parser option" where
  "levelChange levelDiff p =
     (if levelDiff > 0 then Some (openGroups (nat levelDiff) p)
      else if levelDiff < 0 then closeGroups (nat (- levelDiff)) p
      else Some p)"

text \<open>
  The block item and the list item at the head of a line. \<open>Next\<close> returns nil when the group
  is exhausted, and reading the text of a nil token panics; so does adding a node after
  current has been set to the nil parent of a list item.
\<close>

definition blockItem :: "Parser \<Rightarrow> TokenGroup \<Rightarrow> panic + Parser \<times> TokenGroup" where
  "blockItem p g =
     (if Are (Tokens g) [TOKEN_BLOCKITEM]
      then (case Next g of
              (None, g1) \<Rightarrow> Inl NilPointerDereference
            | (Some item, g1) \<Rightarrow>
                (let p1 = (if Kind (heap p ! curr p) \<noteq> NODE_BLOCK
                           then (let (p', n) = addNode p NODE_BLOCK [] in p'\<lparr>curr := n\<rparr>)
                           else p)
                 in Inr (fst (addNode p1 NODE_TEXT [TText item]), g1)))
      else Inr (p, g))"

definition listContainer :: "Parser \<Rightarrow> panic + Parser" where
  "listContainer p =
     (case Kind (heap p ! curr p) of
        NODE_LISTITEM \<Rightarrow>
          (case Parent (heap p ! curr p) of
             None \<Rightarrow> Inl NilPointerDereference
           | Some q \<Rightarrow> Inr (p\<lparr>curr := q\<rparr>))
      | NODE_LIST \<Rightarrow> Inr p
      | _ \<Rightarrow> Inr (let (p', n) = addNode p NODE_LIST [] in p'\<lparr>curr := n\<rparr>))"

definition listItem :: "Parser \<Rightarrow> TokenGroup \<Rightarrow> panic + Parser \<times> TokenGroup" where
  "listItem p g =
     (if Are (Tokens g) [TOKEN_LISTITEM]
      then (case Next g of
              (None, g1) \<Rightarrow> Inl NilPointerDereference
            | (Some item, g1) \<Rightarrow>
                (case listContainer p of
                   Inl e \<Rightarrow> Inl e
                 | Inr p1 \<Rightarrow>
                     (let (p2, n) = addNode p1 NODE_LISTITEM [TText item]
                      in Inr (p2\<lparr>curr := n\<rparr>, g1))))
      else Inr (p, g))"

definition armHook :: "Parser \<Rightarrow> Parser" where
  "armHook p =
     (if IsTextNode (heap p ! lastNode p) then p\<lparr>onAdd := Some SpaceBeforeText\<rparr> else p)"

definition clearHook :: "Parser \<Rightarrow> Parser" where
  "clearHook p = (if onAdd p \<noteq> None then p\<lparr>onAdd := None\<rparr> else p)"

text \<open>The loop over the remaining tokens of the line.\<close>

function drain :: "Parser \<Rightarrow> TokenGroup \<Rightarrow> panic + Parser" where
  "drain p g =
     (case Next g of
        (None, g1) \<Rightarrow> Inr p
      | (Some token, g1) \<Rightarrow>
          (case TKind token of
             TOKEN_SECTION \<Rightarrow>
               drain (fst (addNode (closeAllGroups p) NODE_SECTION [TText token])) g1
           | TOKEN_TEXT \<Rightarrow>
               drain (fst (addNode p NODE_TEXT [TText token])) g1
           | TOKEN_STAR \<Rightarrow>
               (if Are (Tokens g1) [TOKEN_TEXT, TOKEN_STAR]
                then (case Next g1 of
                        (None, g2) \<Rightarrow> Inl NilPointerDereference
                      | (Some text, g2) \<Rightarrow>
                          drain (fst (addNode p NODE_TEXTBOLD [TText text])) (snd (Next g2)))
                else drain p g1)
           | TOKEN_UNDERLINE \<Rightarrow>
               (if Are (Tokens g1) [TOKEN_TEXT, TOKEN_UNDERLINE]
                then (case Next g1 of
                        (None, g2) \<Rightarrow> Inl NilPointerDereference
                      | (Some text, g2) \<Rightarrow>
                          drain (fst (addNode p NODE_TEXTUNDERLINE [TText text])) (snd (Next g2)))
                else drain p g1)
           | _ \<Rightarrow> drain p g1))"
  by pat_completeness auto
termination
  by (relation "measure (\<lambda>(p, g). length (tokens g) - pos g)")
     (auto simp: Next_def split: if_splits)

declare drain.simps [simp del]

text \<open>
  The body of the second loop: \<open>i\<close> is the index of the group, the state is the parser with
  \<open>lastLevel\<close>. An empty group that is not the first one takes the \<open>continue\<close>.
\<close>

definition lineBody :: "Parser \<Rightarrow> TokenGroup \<Rightarrow> panic + Parser" where
  "lineBody p g =
     (case blockItem p g of
        Inl e \<Rightarrow> Inl e
      | Inr (p1, g1) \<Rightarrow>
          (case listItem p1 g1 of
             Inl e \<Rightarrow> Inl e
           | Inr (p2, g2) \<Rightarrow>
               (case drain (armHook p2) g2 of
                  Inl e \<Rightarrow> Inl e
                | Inr p3 \<Rightarrow> Inr (clearHook p3))))"

definition parseLine :: "nat \<Rightarrow> Parser \<times> nat \<Rightarrow> TokenGroup \<Rightarrow> (panic + Parser \<times> nat) option" where
  "parseLine i s g =
     (case s of (p, lastLevel) \<Rightarrow>
        if length (tokens g) = 0 \<and> i > 0
        then Some (Inr (fst (addNode (closeAllGroups p) NODE_BREAK []), lastLevel))
        else (case levelChange (int (level g) - int lastLevel) p of
                None \<Rightarrow> None
              | Some p1 \<Rightarrow>
                  (case lineBody p1 g of
                     Inl e \<Rightarrow> Some (Inl e)
                   | Inr p2 \<Rightarrow> Some (Inr (p2, level g)))))"

fun parseGroups :: "nat \<Rightarrow> TokenGroup list \<Rightarrow> Parser \<times> nat \<Rightarrow> (panic + Parser \<times> nat) option" where
  "parseGroups i [] s = Some (Inr s)"
| "parseGroups i (g # groups) s =
     (case parseLine i s g of
        None \<Rightarrow> None
      | Some (Inl e) \<Rightarrow> Some (Inl e)
      | Some (Inr s1) \<Rightarrow> parseGroups (Suc i) groups s1)"

text \<open>
  \<open>Parse\<close> returns the root; the model returns the parser, whose \<open>root\<close> is that pointer and
  whose \<open>heap\<close> holds the tree. \<open>Some (Inl e)\<close> is a panic, \<open>None\<close> a run that never returns.
\<close>

definition Parse :: "Parser \<Rightarrow> Token list \<Rightarrow> (panic + Parser) option" where
  "Parse p toks =
     (let (h, r) = alloc (heap p) (NewNode NODE_GROUP);
          p0 = p\<lparr>heap := h, root := r, curr := r\<rparr>
      in if length toks = 0 then Some (Inr p0)
         else (case splitGroups toks [] of
                 Inl e \<Rightarrow> Some (Inl e)
               | Inr groups \<Rightarrow>
                   (case parseGroups 0 groups (p0, 0) of
                      None \<Rightarrow> None
                    | Some (Inl e) \<Rightarrow> Some (Inl e)
                    | Some (Inr (p1, lastLevel)) \<Rightarrow> Some (Inr p1))))"

section \<open>Vocabulary of the proofs\<close>

text \<open>
  The node that \<open>addNode\<close> builds from its arguments, and the shape of a store after nodes
  were appended to it and hung below the node \<open>c\<close>: the new nodes \<open>nds\<close> at the end, their
  addresses \<open>cs\<close> appended to the children of \<open>c\<close>.
\<close>

definition nodeOf :: "NodeKind \<Rightarrow> string list \<Rightarrow> Node" where
  "nodeOf kind text = (if length text = 0 then NewNode kind else NewNodeWithText kind (hd text))"

definition graft :: "store \<Rightarrow> addr \<Rightarrow> addr list \<Rightarrow> Node list \<Rightarrow> store" where
  "graft h c cs nds = h[c := (h ! c)\<lparr>Childs := Childs (h ! c) @ cs\<rparr>] @ nds"

definition child :: "addr \<Rightarrow> Node \<Rightarrow> Node" where
  "child c nd = nd\<lparr>Parent := Some c\<rparr>"

text \<open>
  \<open>climb h n a\<close> follows the parent pointer \<open>n\<close> times from \<open>a\<close>; \<open>r\<close> is an ancestor of \<open>a\<close>
  (or \<open>a\<close> itself) when some number of steps leads from \<open>a\<close> to \<open>r\<close>.
\<close>

fun climb :: "store \<Rightarrow> nat \<Rightarrow> addr \<Rightarrow> addr option" where
  "climb h 0 a = Some a"
| "climb h (Suc n) a = (case Parent (h ! a) of None \<Rightarrow> None | Some b \<Rightarrow> climb h n b)"

definition isAncestor :: "store \<Rightarrow> addr \<Rightarrow> addr \<Rightarrow> bool" where
  "isAncestor h r a = (\<exists>n \<le> length h. climb h n a = Some r)"

text \<open>
  The shape of the nodes that one call of \<open>Parse\<close> has allocated, from the root \<open>r\<close> on: the
  root is a group without parent; every later node has a parent among the earlier ones, which
  is a list exactly when the node is a list item; children are later nodes that point back to
  their parent.
\<close>

definition tree_inv :: "store \<Rightarrow> addr \<Rightarrow> bool" where
  "tree_inv h r =
     (r < length h \<and> Parent (h ! r) = None \<and> Kind (h ! r) = NODE_GROUP \<and>
      (\<forall>a. r < a \<and> a < length h \<longrightarrow>
         (\<exists>b. Parent (h ! a) = Some b \<and> r \<le> b \<and> b < a \<and>
              (Kind (h ! b) = NODE_LIST \<longleftrightarrow> Kind (h ! a) = NODE_LISTITEM))) \<and>
      (\<forall>a. r \<le> a \<and> a < length h \<longrightarrow>
         (\<forall>c \<in> set (Childs (h ! a)). a < c \<and> c < length h \<and> Parent (h ! c) = Some a)))"

definition parser_inv :: "Parser \<Rightarrow> bool" where
  "parser_inv p =
     (tree_inv (heap p) (root p) \<and> root p \<le> curr p \<and> curr p < length (heap p) \<and>
      Kind (heap p ! curr p) \<noteq> NODE_LIST)"

text \<open>
  The words of the specification for a line: its leading indentation tokens, and its body, the
  tokens after them up to the next end of line.
\<close>

definition leadingIndents :: "Token list \<Rightarrow> Token list" where
  "leadingIndents toks = takeWhile (\<lambda>t. TKind t = TOKEN_INDENT) toks"

definition bodyTokens :: "Token list \<Rightarrow> Token list" where
  "bodyTokens toks =
     takeWhile (\<lambda>t. TKind t \<noteq> TOKEN_EOL) (dropWhile (\<lambda>t. TKind t = TOKEN_INDENT) toks)"

definition restTokens :: "Token list \<Rightarrow> Token list" where
  "restTokens toks =
     dropWhile (\<lambda>t. TKind t \<noteq> TOKEN_EOL) (dropWhile (\<lambda>t. TKind t = TOKEN_INDENT) toks)"

text \<open>
  A line ends at the first end of line after its indentation, so only the last line of an
  input can lack its end of line: every line is terminated exactly when the input is empty or
  its last token is an end of line.
\<close>

definition linesTerminated :: "Token list \<Rightarrow> bool" where
  "linesTerminated toks = (toks = [] \<or> TKind (last toks) = TOKEN_EOL)"

text \<open>
  A parser with \<open>Parse\<close>'s first two assignments done: a new group is root and current.
\<close>

definition start :: "Parser \<Rightarrow> Parser" where
  "start p =
     p\<lparr>heap := heap p @ [NewNode NODE_GROUP], root := length (heap p), curr := length (heap p)\<rparr>"

text \<open>The weaker shape that holds while a list item is being added: current may be a list.\<close>

definition parser_wf :: "Parser \<Rightarrow> bool" where
  "parser_wf p =
     (tree_inv (heap p) (root p) \<and> root p \<le> curr p \<and> curr p < length (heap p))"

text \<open>
  \<open>grows p p'\<close>: the store of \<open>p'\<close> is the store of \<open>p\<close> with nodes appended; kind, text and
  parent of the nodes that were there are unchanged, and so is the root.
\<close>

definition grows :: "Parser \<Rightarrow> Parser \<Rightarrow> bool" where
  "grows p p' =
     (root p' = root p \<and> length (heap p) \<le> length (heap p') \<and>
      (\<forall>a < length (heap p).
         Kind (heap p' ! a) = Kind (heap p ! a) \<and> Text (heap p' ! a) = Text (heap p ! a) \<and>
         Parent (heap p' ! a) = Parent (heap p ! a)))"

text \<open>
  What a claim reads off a tree: the kind and text of the children of a node, in sibling
  order; the children of the root after parsing with a fresh parser; the number of Space
  nodes of a store.
\<close>

definition childrenOf :: "store \<Rightarrow> addr \<Rightarrow> (NodeKind \<times> string) list" where
  "childrenOf h a = map (\<lambda>c. (Kind (h ! c), Text (h ! c))) (Childs (h ! a))"

definition rootChildren :: "Token list \<Rightarrow> (NodeKind \<times> string) list option" where
  "rootChildren toks =
     (case Parse NewParser toks of
        Some (Inr q) \<Rightarrow> Some (childrenOf (heap q) (root q))
      | _ \<Rightarrow> None)"

definition spaces :: "store \<Rightarrow> nat" where
  "spaces h = count_list (map Kind h) NODE_SPACE"

text \<open>
  \<open>underRoot p q\<close>: from \<open>p\<close> to \<open>q\<close> the store has only grown, current is the root in \<open>q\<close>,
  and every node added is a child of the root: its parent pointer is the root and its
  address is among the root's children, which have lost nothing.
\<close>

definition underRoot :: "Parser \<Rightarrow> Parser \<Rightarrow> bool" where
  "underRoot p q =
     (grows p q \<and> curr q = root p \<and>
      (\<forall>a. length (heap p) \<le> a \<and> a < length (heap q) \<longrightarrow>
         Parent (heap q ! a) = Some (root p) \<and> a \<in> set (Childs (heap q ! root p))) \<and>
      set (Childs (heap p ! root p)) \<subseteq> set (Childs (heap q ! root p)))"

text \<open>
  \<open>groupDepth h c a n\<close>: the parent pointers lead from \<open>a\<close> up to \<open>c\<close>, past \<open>n\<close> group nodes
  (\<open>a\<close> counted, \<open>c\<close> not), and the node just below \<open>c\<close> on the way is a group. This is how
  the nodes that indented lines hang below \<open>c\<close> are placed: a group for each level, and
  lists, list items and blocks inside the groups.
\<close>

inductive groupDepth :: "store \<Rightarrow> addr \<Rightarrow> addr \<Rightarrow> nat \<Rightarrow> bool"
  for h :: store and c :: addr where
    here: "c < length h \<Longrightarrow> groupDepth h c c 0"
  | group: "a < length h \<Longrightarrow> a \<noteq> c \<Longrightarrow> Parent (h ! a) = Some b \<Longrightarrow> groupDepth h c b n \<Longrightarrow>
            Kind (h ! a) = NODE_GROUP \<Longrightarrow> groupDepth h c a (Suc n)"
  | inside: "a < length h \<Longrightarrow> a \<noteq> c \<Longrightarrow> Parent (h ! a) = Some b \<Longrightarrow> groupDepth h c b n \<Longrightarrow>
             Kind (h ! a) \<noteq> NODE_GROUP \<Longrightarrow> b \<noteq> c \<Longrightarrow> groupDepth h c a n"

code_pred groupDepth .

text \<open>
  The kind of the first node that the loop over the tokens of a line adds, read off the
  tokens that remain: a Section or Text token gives its node; a delimiter gives the bold or
  underlined text when the two tokens after it complete the span, and is passed over
  otherwise, like every other token. \<open>textKind\<close> says that there is such a node and that it
  is a text node.
\<close>

fun firstNode :: "Token list \<Rightarrow> NodeKind option" where
  "firstNode [] = None"
| "firstNode (t # ts) =
     (case TKind t of
        TOKEN_SECTION \<Rightarrow> Some NODE_SECTION
      | TOKEN_TEXT \<Rightarrow> Some NODE_TEXT
      | TOKEN_STAR \<Rightarrow>
          (if Are ts [TOKEN_TEXT, TOKEN_STAR] then Some NODE_TEXTBOLD else firstNode ts)
      | TOKEN_UNDERLINE \<Rightarrow>
          (if Are ts [TOKEN_TEXT, TOKEN_UNDERLINE] then Some NODE_TEXTUNDERLINE
           else firstNode ts)
      | _ \<Rightarrow> firstNode ts)"

definition textKind :: "NodeKind option \<Rightarrow> bool" where
  "textKind k =
     (k = Some NODE_TEXT \<or> k = Some NODE_TEXTBOLD \<or> k = Some NODE_TEXTUNDERLINE)"

section \<open>Effect of \<open>addNode\<close>\<close>

lemma AddChild_fresh:
  "c < length h \<Longrightarrow> AddChild (h @ [nd]) c (length h) = graft h c [length h] [child c nd]"
  by (simp add: AddChild_def graft_def child_def Let_def nth_append list_update_append)

lemma graft_graft:
  "c < length h \<Longrightarrow> graft (graft h c cs nds) c cs' nds' = graft h c (cs @ cs') (nds @ nds')"
  by (simp add: graft_def nth_append list_update_append)

lemma addNode_unfold:
  "addNode p k t =
     (let node = length (heap p);
          p1 = p\<lparr>heap := heap p @ [nodeOf k t]\<rparr>;
          p2 = (case onAdd p of
                  None \<Rightarrow> p1
                | Some cb \<Rightarrow>
                    (if IsTextNode (nodeOf k t)
                     then fst (addNode (p1\<lparr>onAdd := None\<rparr>) NODE_SPACE [])
                     else p1\<lparr>onAdd := None\<rparr>))
      in (p2\<lparr>heap := AddChild (heap p2) (curr p2) node\<rparr>, node))"
  by (subst addNode.simps) (simp add: alloc_def nodeOf_def Let_def split: option.split callback.split)

lemma addNode_plain:
  assumes "onAdd p = None" "curr p < length (heap p)"
  shows "addNode p k t =
           (p\<lparr>heap := graft (heap p) (curr p) [length (heap p)] [child (curr p) (nodeOf k t)]\<rparr>,
            length (heap p))"
  using assms
  by (simp add: addNode_unfold [of p] Let_def AddChild_fresh)

lemma IsTextNode_nodeOf [simp]:
  "IsTextNode (nodeOf k t) = (k = NODE_TEXT \<or> k = NODE_TEXTBOLD \<or> k = NODE_TEXTUNDERLINE)"
  by (cases k) (simp_all add: IsTextNode_def nodeOf_def NewNode_def NewNodeWithText_def)

lemma addNode_hook_other:
  assumes "onAdd p = Some cb" "curr p < length (heap p)" "\<not> IsTextNode (nodeOf k t)"
  shows "addNode p k t =
           (p\<lparr>heap := graft (heap p) (curr p) [length (heap p)] [child (curr p) (nodeOf k t)],
              onAdd := None\<rparr>,
            length (heap p))"
  using assms
  by (simp add: addNode_unfold [of p] Let_def AddChild_fresh)

lemma addNode_hook_text:
  assumes "onAdd p = Some cb" "curr p < length (heap p)" "IsTextNode (nodeOf k t)"
  shows "addNode p k t =
           (p\<lparr>heap := graft (heap p) (curr p) [Suc (length (heap p)), length (heap p)]
                        [child (curr p) (nodeOf k t), child (curr p) (NewNode NODE_SPACE)],
              onAdd := None\<rparr>,
            length (heap p))"
proof -
  let ?h = "heap p" and ?nd = "nodeOf k t"
  let ?p1 = "p\<lparr>heap := ?h @ [?nd], onAdd := None\<rparr>"
  have sp: "addNode ?p1 NODE_SPACE [] =
      (?p1\<lparr>heap := graft (?h @ [?nd]) (curr p) [Suc (length ?h)] [child (curr p) (NewNode NODE_SPACE)]\<rparr>,
       Suc (length ?h))"
    using assms(2) by (simp add: addNode_plain nodeOf_def)
  show ?thesis
    using assms
    apply (simp add: addNode_unfold [of p] Let_def sp del: IsTextNode_nodeOf)
    apply (simp add: AddChild_def graft_def child_def Let_def nth_append list_update_append)
    done
qed

section \<open>The shape of the tree\<close>

lemma length_graft [simp]: "length (graft h c cs nds) = length h + length nds"
  by (simp add: graft_def)

lemma graft_old:
  "a < length h \<Longrightarrow>
     Kind (graft h c cs nds ! a) = Kind (h ! a) \<and>
     Text (graft h c cs nds ! a) = Text (h ! a) \<and>
     Parent (graft h c cs nds ! a) = Parent (h ! a) \<and>
     Childs (graft h c cs nds ! a) = (if a = c then Childs (h ! a) @ cs else Childs (h ! a))"
  by (simp add: graft_def nth_append nth_list_update)

lemma graft_new:
  "length h \<le> a \<Longrightarrow> graft h c cs nds ! a = nds ! (a - length h)"
  by (simp add: graft_def nth_append)

lemma tree_inv_root:
  "tree_inv h r \<Longrightarrow> r < length h \<and> Parent (h ! r) = None \<and> Kind (h ! r) = NODE_GROUP"
  unfolding tree_inv_def by blast

lemma tree_inv_parent:
  "tree_inv h r \<Longrightarrow> r < a \<Longrightarrow> a < length h \<Longrightarrow>
     \<exists>b. Parent (h ! a) = Some b \<and> r \<le> b \<and> b < a \<and>
         (Kind (h ! b) = NODE_LIST \<longleftrightarrow> Kind (h ! a) = NODE_LISTITEM)"
  unfolding tree_inv_def by blast

lemma tree_inv_child:
  "tree_inv h r \<Longrightarrow> r \<le> a \<Longrightarrow> a < length h \<Longrightarrow> x \<in> set (Childs (h ! a)) \<Longrightarrow>
     a < x \<and> x < length h \<and> Parent (h ! x) = Some a"
  unfolding tree_inv_def by blast

lemma tree_inv_graft:
  assumes inv: "tree_inv h r" and c: "r \<le> c" "c < length h"
    and cs: "set cs = {length h ..< length h + length nds}"
    and nds: "\<forall>nd \<in> set nds. Parent nd = Some c \<and> Childs nd = [] \<and>
                (Kind (h ! c) = NODE_LIST \<longleftrightarrow> Kind nd = NODE_LISTITEM)"
  shows "tree_inv (graft h c cs nds) r"
proof -
  let ?g = "graft h c cs nds"
  have new: "Parent (?g ! a) = Some c \<and> Childs (?g ! a) = [] \<and>
             (Kind (h ! c) = NODE_LIST \<longleftrightarrow> Kind (?g ! a) = NODE_LISTITEM)"
    if "length h \<le> a" "a < length ?g" for a
  proof -
    have "nds ! (a - length h) \<in> set nds" using that by simp
    then show ?thesis using nds that by (simp add: graft_new)
  qed
  have r: "r < length h" using tree_inv_root [OF inv] by simp
  have 1: "r < length ?g \<and> Parent (?g ! r) = None \<and> Kind (?g ! r) = NODE_GROUP"
    using tree_inv_root [OF inv] by (simp add: graft_old)
  have 2: "\<exists>b. Parent (?g ! a) = Some b \<and> r \<le> b \<and> b < a \<and>
              (Kind (?g ! b) = NODE_LIST \<longleftrightarrow> Kind (?g ! a) = NODE_LISTITEM)"
    if a: "r < a" "a < length ?g" for a
  proof (cases "a < length h")
    case True
    then obtain b where b: "Parent (h ! a) = Some b" "r \<le> b" "b < a"
        "Kind (h ! b) = NODE_LIST \<longleftrightarrow> Kind (h ! a) = NODE_LISTITEM"
      using tree_inv_parent [OF inv a(1) True] by blast
    then have "b < length h" using True by simp
    then show ?thesis using b True by (simp add: graft_old)
  next
    case False
    then show ?thesis using new [of a] a c by (simp add: graft_old)
  qed
  have 3: "a < x \<and> x < length ?g \<and> Parent (?g ! x) = Some a"
    if a: "r \<le> a" "a < length ?g" and x: "x \<in> set (Childs (?g ! a))" for a x
  proof (cases "a < length h")
    case True
    show ?thesis
    proof (cases "x \<in> set (Childs (h ! a))")
      case True
      then have "a < x \<and> x < length h \<and> Parent (h ! x) = Some a"
        using tree_inv_child [OF inv a(1) \<open>a < length h\<close>] by blast
      then show ?thesis by (simp add: graft_old)
    next
      case False
      then have ac: "a = c" and xc: "x \<in> set cs"
        using x \<open>a < length h\<close> by (auto simp: graft_old split: if_splits)
      then have "length h \<le> x" "x < length ?g" using cs by auto
      then show ?thesis using new [of x] ac c by simp
    qed
  next
    case False
    then show ?thesis using new [of a] a x by simp
  qed
  show ?thesis
    unfolding tree_inv_def using 1 2 3 by blast
qed

section \<open>Line groups: what is counted\<close>

lemma countIndents_eq: "countIndents toks n = n + length (leadingIndents toks)"
  by (induction toks arbitrary: n) (simp_all add: leadingIndents_def Is_def)

lemma collectLine_eq:
  "collectLine toks acc = acc @ takeWhile (\<lambda>t. TKind t \<noteq> TOKEN_EOL) toks"
  by (induction toks arbitrary: acc) (simp_all add: Is_def)

lemma NewTokenGroup_eq:
  "NewTokenGroup toks =
     (\<lparr>tokens = bodyTokens toks, level = length (leadingIndents toks), pos = 0\<rparr>,
      length (leadingIndents toks) + length (bodyTokens toks))"
  by (simp add: NewTokenGroup_def Let_def countIndents_eq collectLine_eq bodyTokens_def
      leadingIndents_def dropWhile_eq_drop)

text \<open>
  C2, as amended: the count that \<open>NewTokenGroup\<close> returns is the number of leading indentation
  tokens plus the number of body tokens collected up to the next end of line, and these are
  the level and the tokens of the group. The end of line is not in the count: \<open>Parse\<close> skips it
  with \<open>consumed + 1\<close>.
\<close>

theorem NewTokenGroup_consumed:
  "snd (NewTokenGroup toks) = length (leadingIndents toks) + length (bodyTokens toks) \<and>
   level (fst (NewTokenGroup toks)) = length (leadingIndents toks) \<and>
   tokens (fst (NewTokenGroup toks)) = bodyTokens toks"
  by (simp add: NewTokenGroup_eq)

text \<open>
  C2, as stated, fails on the line \<open>Text("a"), EndOfLine\<close>: no indentation, one body token,
  and the count returned is 1, not 2.
\<close>

theorem NewTokenGroup_consumed_counterexample:
  "snd (NewTokenGroup [NewTokenWithText TOKEN_TEXT ''a'', NewToken TOKEN_EOL]) \<noteq>
   length (leadingIndents [NewTokenWithText TOKEN_TEXT ''a'', NewToken TOKEN_EOL])
     + length (bodyTokens [NewTokenWithText TOKEN_TEXT ''a'', NewToken TOKEN_EOL]) + 1"
  by (simp add: NewTokenGroup_eq leadingIndents_def bodyTokens_def NewToken_def
      NewTokenWithText_def)

lemma nodeOf_simps [simp]:
  "Kind (nodeOf k t) = k" "Parent (nodeOf k t) = None" "Childs (nodeOf k t) = []"
  "Text (nodeOf k t) = (if t = [] then '''' else hd t)"
  by (simp_all add: nodeOf_def NewNode_def NewNodeWithText_def)

lemma NewNode_simps [simp]:
  "Kind (NewNode k) = k" "Parent (NewNode k) = None" "Childs (NewNode k) = []"
  "Text (NewNode k) = ''''"
  by (simp_all add: NewNode_def NewNodeWithText_def)

lemma child_simps [simp]:
  "Kind (child c nd) = Kind nd" "Parent (child c nd) = Some c" "Childs (child c nd) = Childs nd"
  "Text (child c nd) = Text nd"
  by (simp_all add: child_def)

lemma addNode_shape:
  assumes "curr p < length (heap p)"
  shows "\<exists>cs nds.
      addNode p k t =
        (p\<lparr>heap := graft (heap p) (curr p) cs nds, onAdd := None\<rparr>, length (heap p)) \<and>
      set cs = {length (heap p) ..< length (heap p) + length nds} \<and>
      nds \<noteq> [] \<and> hd nds = child (curr p) (nodeOf k t) \<and>
      (\<forall>nd \<in> set nds. Parent nd = Some (curr p) \<and> Childs nd = [] \<and>
         (Kind nd = k \<or> Kind nd = NODE_SPACE \<and> IsTextNode (nodeOf k t)))"
proof (cases "onAdd p")
  case None
  then have "p\<lparr>heap := h, onAdd := None\<rparr> = p\<lparr>heap := h\<rparr>" for h by simp
  then show ?thesis
    using addNode_plain [OF None assms, of k t]
    by (intro exI [of _ "[length (heap p)]"] exI [of _ "[child (curr p) (nodeOf k t)]"]) simp
next
  case (Some cb)
  show ?thesis
  proof (cases "IsTextNode (nodeOf k t)")
    case True
    have "{length (heap p), Suc (length (heap p))} = {length (heap p) ..< Suc (Suc (length (heap p)))}"
      by auto
    then show ?thesis
      using addNode_hook_text [OF Some assms True] True
      by (intro exI [of _ "[Suc (length (heap p)), length (heap p)]"]
          exI [of _ "[child (curr p) (nodeOf k t), child (curr p) (NewNode NODE_SPACE)]"])
        (simp add: insert_commute)
  next
    case False
    then show ?thesis
      using addNode_hook_other [OF Some assms False]
      by (intro exI [of _ "[length (heap p)]"] exI [of _ "[child (curr p) (nodeOf k t)]"]) simp
  qed
qed

lemma grows_refl [simp]: "grows p p"
  by (simp add: grows_def)

lemma grows_trans: "grows p q \<Longrightarrow> grows q r \<Longrightarrow> grows p r"
  unfolding grows_def by (metis (no_types, lifting) le_trans less_le_trans)

lemma grows_curr [simp]: "grows p (q\<lparr>curr := c\<rparr>) = grows p q" "grows (p\<lparr>curr := c\<rparr>) q = grows p q"
  by (simp_all add: grows_def)

lemma grows_onAdd [simp]: "grows p (q\<lparr>onAdd := x\<rparr>) = grows p q" "grows (p\<lparr>onAdd := x\<rparr>) q = grows p q"
  by (simp_all add: grows_def)

text \<open>What one call of \<open>addNode\<close> does to a parser whose current node is in the store.\<close>

lemma addNode_facts:
  fixes p :: Parser and k :: NodeKind and t :: "string list"
  assumes c: "curr p < length (heap p)"
  defines "p' \<equiv> fst (addNode p k t)"
  shows "snd (addNode p k t) = length (heap p)"
    and "grows p p'"
    and "curr p' = curr p"
    and "onAdd p' = None"
    and "length (heap p) < length (heap p')"
    and "heap p' ! length (heap p) = child (curr p) (nodeOf k t)"
    and "\<forall>a. length (heap p) \<le> a \<and> a < length (heap p') \<longrightarrow>
           Parent (heap p' ! a) = Some (curr p) \<and> Childs (heap p' ! a) = [] \<and>
           (Kind (heap p' ! a) = k \<or> Kind (heap p' ! a) = NODE_SPACE \<and> IsTextNode (nodeOf k t))"
proof -
  obtain cs nds where
    eq: "addNode p k t =
        (p\<lparr>heap := graft (heap p) (curr p) cs nds, onAdd := None\<rparr>, length (heap p))"
    and nds: "nds \<noteq> []" "hd nds = child (curr p) (nodeOf k t)"
      "\<forall>nd \<in> set nds. Parent nd = Some (curr p) \<and> Childs nd = [] \<and>
         (Kind nd = k \<or> Kind nd = NODE_SPACE \<and> IsTextNode (nodeOf k t))"
    using addNode_shape [OF c, of k t] by blast
  have h: "heap p' = graft (heap p) (curr p) cs nds" by (simp add: p'_def eq)
  show "snd (addNode p k t) = length (heap p)" by (simp add: eq)
  show "grows p p'" by (simp add: grows_def h graft_old) (simp add: p'_def eq)
  show "curr p' = curr p" "onAdd p' = None" by (simp_all add: p'_def eq)
  show "length (heap p) < length (heap p')" using nds(1) by (simp add: h)
  show "heap p' ! length (heap p) = child (curr p) (nodeOf k t)"
    using nds(1,2) by (simp add: h graft_new hd_conv_nth)
  show "\<forall>a. length (heap p) \<le> a \<and> a < length (heap p') \<longrightarrow>
           Parent (heap p' ! a) = Some (curr p) \<and> Childs (heap p' ! a) = [] \<and>
           (Kind (heap p' ! a) = k \<or> Kind (heap p' ! a) = NODE_SPACE \<and> IsTextNode (nodeOf k t))"
  proof (intro allI impI)
    fix a assume a: "length (heap p) \<le> a \<and> a < length (heap p')"
    then have "a - length (heap p) < length nds" by (auto simp: h)
    then have "nds ! (a - length (heap p)) \<in> set nds" by simp
    then show "Parent (heap p' ! a) = Some (curr p) \<and> Childs (heap p' ! a) = [] \<and>
           (Kind (heap p' ! a) = k \<or> Kind (heap p' ! a) = NODE_SPACE \<and> IsTextNode (nodeOf k t))"
      using nds(3) a by (simp add: h graft_new)
  qed
qed

lemma addNode_wf:
  assumes wf: "parser_wf p"
    and k: "Kind (heap p ! curr p) = NODE_LIST \<longleftrightarrow> k = NODE_LISTITEM"
  shows "parser_wf (fst (addNode p k t))"
proof -
  have c: "curr p < length (heap p)" "root p \<le> curr p" and inv: "tree_inv (heap p) (root p)"
    using wf by (simp_all add: parser_wf_def)
  obtain cs nds where
    eq: "addNode p k t =
        (p\<lparr>heap := graft (heap p) (curr p) cs nds, onAdd := None\<rparr>, length (heap p))"
    and cs: "set cs = {length (heap p) ..< length (heap p) + length nds}"
    and nds: "\<forall>nd \<in> set nds. Parent nd = Some (curr p) \<and> Childs nd = [] \<and>
         (Kind nd = k \<or> Kind nd = NODE_SPACE \<and> IsTextNode (nodeOf k t))"
    using addNode_shape [OF c(1), of k t] by blast
  have "\<forall>nd \<in> set nds. Parent nd = Some (curr p) \<and> Childs nd = [] \<and>
      (Kind (heap p ! curr p) = NODE_LIST \<longleftrightarrow> Kind nd = NODE_LISTITEM)"
    using nds k by auto
  from tree_inv_graft [OF inv c(2,1) cs this]
  show ?thesis using c by (simp add: eq parser_wf_def)
qed

section \<open>The steps of a line keep the shape\<close>

lemma parser_inv_wf: "parser_inv p \<Longrightarrow> parser_wf p"
  by (simp add: parser_inv_def parser_wf_def)

lemma parser_inv_onAdd [simp]: "parser_inv (p\<lparr>onAdd := x\<rparr>) = parser_inv p"
  by (simp add: parser_inv_def)

lemma parser_wf_onAdd [simp]: "parser_wf (p\<lparr>onAdd := x\<rparr>) = parser_wf p"
  by (simp add: parser_wf_def)

lemma grows_kind:
  "grows p q \<Longrightarrow> a < length (heap p) \<Longrightarrow>
     Kind (heap q ! a) = Kind (heap p ! a) \<and> Parent (heap q ! a) = Parent (heap p ! a) \<and>
     Text (heap q ! a) = Text (heap p ! a)"
  by (simp add: grows_def)

lemma grows_root: "grows p q \<Longrightarrow> root q = root p"
  by (simp add: grows_def)

lemma grows_length: "grows p q \<Longrightarrow> length (heap p) \<le> length (heap q)"
  by (simp add: grows_def)

text \<open>
  Adding a node and descending into it, as \<open>openGroup\<close> and the block and list steps do.
\<close>

lemma descend_inv:
  fixes p :: Parser and k :: NodeKind and t :: "string list"
  assumes wf: "parser_wf p"
    and k: "Kind (heap p ! curr p) = NODE_LIST \<longleftrightarrow> k = NODE_LISTITEM"
  defines "q \<equiv> (let (p1, n) = addNode p k t in p1\<lparr>curr := n\<rparr>)"
  shows "parser_wf q" and "grows p q" and "Kind (heap q ! curr q) = k"
    and "curr q = length (heap p)" and "Parent (heap q ! curr q) = Some (curr p)"
    and "onAdd q = None"
proof -
  have c: "curr p < length (heap p)" "root p \<le> curr p"
    using wf by (simp_all add: parser_wf_def)
  note f = addNode_facts [OF c(1), of k t]
  have q: "q = (fst (addNode p k t))\<lparr>curr := length (heap p)\<rparr>"
    by (simp add: q_def split_beta f(1))
  show "grows p q" by (simp add: q f(2))
  show "curr q = length (heap p)" by (simp add: q)
  show "Kind (heap q ! curr q) = k" "Parent (heap q ! curr q) = Some (curr p)"
    by (simp_all add: q f(6))
  show "onAdd q = None" by (simp add: q f(4))
  have "parser_wf (fst (addNode p k t))" by (rule addNode_wf [OF wf k])
  then show "parser_wf q"
    using f(5) c f(2) by (simp add: q parser_wf_def grows_def)
qed

lemma openGroup_inv:
  assumes "parser_inv p"
  shows "parser_inv (openGroup p)" and "grows p (openGroup p)"
    and "curr (openGroup p) = length (heap p)"
    and "Kind (heap (openGroup p) ! curr (openGroup p)) = NODE_GROUP"
    and "Parent (heap (openGroup p) ! curr (openGroup p)) = Some (curr p)"
proof -
  have wf: "parser_wf p" and k: "Kind (heap p ! curr p) = NODE_LIST \<longleftrightarrow> NODE_GROUP = NODE_LISTITEM"
    using assms by (simp_all add: parser_inv_def parser_wf_def)
  note d = descend_inv [OF wf k, of "[]", folded openGroup_def]
  show "parser_inv (openGroup p)"
    using d(1,3) by (simp add: parser_inv_def parser_wf_def)
  show "grows p (openGroup p)" "curr (openGroup p) = length (heap p)"
    "Kind (heap (openGroup p) ! curr (openGroup p)) = NODE_GROUP"
    "Parent (heap (openGroup p) ! curr (openGroup p)) = Some (curr p)"
    using d by simp_all
qed

text \<open>In a well-shaped store the walk of \<open>closeGroup\<close> ends: every step goes to a smaller address.\<close>

lemma closeGroupLoop_total:
  assumes "tree_inv (heap p) (root p)" "root p \<le> curr p" "curr p < length (heap p)"
  shows "\<exists>c. closeGroupLoop p = Some (p\<lparr>curr := c\<rparr>) \<and> root p \<le> c \<and> c \<le> curr p \<and>
             (c = root p \<or> Kind (heap p ! c) = NODE_GROUP)"
  using assms
proof (induction "curr p" arbitrary: p rule: less_induct)
  case less
  show ?case
  proof (cases "curr p = root p")
    case True
    then have "Parent (heap p ! curr p) = None"
      using tree_inv_root [OF less.prems(1)] by simp
    then have "closeGroupLoop p = Some (p\<lparr>curr := curr p\<rparr>)"
      by (subst closeGroupLoop.simps) simp
    then show ?thesis using True by (intro exI [of _ "curr p"]) simp
  next
    case False
    then have "root p < curr p" using less.prems(2) by simp
    then obtain b where b: "Parent (heap p ! curr p) = Some b" "root p \<le> b" "b < curr p"
      using tree_inv_parent [OF less.prems(1) _ less.prems(3)] by blast
    show ?thesis
    proof (cases "Kind (heap p ! curr p) = NODE_GROUP")
      case True
      then have "closeGroupLoop p = Some (p\<lparr>curr := curr p\<rparr>)"
        using b by (subst closeGroupLoop.simps) simp
      then show ?thesis using True less.prems(2) by (intro exI [of _ "curr p"]) simp
    next
      case False
      let ?q = "p\<lparr>curr := b\<rparr>"
      have step: "closeGroupLoop p = closeGroupLoop ?q"
        using b False by (subst closeGroupLoop.simps) simp
      have "\<exists>c. closeGroupLoop ?q = Some (?q\<lparr>curr := c\<rparr>) \<and> root ?q \<le> c \<and> c \<le> curr ?q \<and>
             (c = root ?q \<or> Kind (heap ?q ! c) = NODE_GROUP)"
        using b less.prems by (intro less.hyps) simp_all
      then obtain c where "closeGroupLoop ?q = Some (?q\<lparr>curr := c\<rparr>)" "root p \<le> c" "c \<le> b"
          "c = root p \<or> Kind (heap p ! c) = NODE_GROUP"
        by auto
      then show ?thesis using step b(3) by (intro exI [of _ c]) simp
    qed
  qed
qed

lemma closeGroup_inv:
  assumes "parser_inv p"
  shows "\<exists>c. closeGroup p = Some (p\<lparr>curr := c\<rparr>) \<and> parser_inv (p\<lparr>curr := c\<rparr>) \<and> c \<le> curr p"
proof -
  have inv: "tree_inv (heap p) (root p)" and c: "root p \<le> curr p" "curr p < length (heap p)"
    using assms by (simp_all add: parser_inv_def)
  obtain c where loop: "closeGroupLoop p = Some (p\<lparr>curr := c\<rparr>)" and
    cc: "root p \<le> c" "c \<le> curr p" "c = root p \<or> Kind (heap p ! c) = NODE_GROUP"
    using closeGroupLoop_total [OF inv c] by blast
  show ?thesis
  proof (cases "c = root p")
    case True
    then have "closeGroup p = Some (p\<lparr>curr := c\<rparr>)"
      using tree_inv_root [OF inv] by (simp add: closeGroup_def loop)
    moreover have "parser_inv (p\<lparr>curr := c\<rparr>)"
      using True tree_inv_root [OF inv] inv by (simp add: parser_inv_def)
    ultimately show ?thesis using cc(2) by (intro exI [of _ c]) simp
  next
    case False
    then have "root p < c" "c < length (heap p)" "Kind (heap p ! c) = NODE_GROUP"
      using cc c by simp_all
    then obtain b where b: "Parent (heap p ! c) = Some b" "root p \<le> b" "b < c"
      "Kind (heap p ! b) \<noteq> NODE_LIST"
      using tree_inv_parent [OF inv, of c] by auto
    have "closeGroup p = Some (p\<lparr>curr := b\<rparr>)"
      using b by (simp add: closeGroup_def loop)
    moreover have "parser_inv (p\<lparr>curr := b\<rparr>)"
      using b inv \<open>c < length (heap p)\<close> by (simp add: parser_inv_def)
    ultimately show ?thesis using b(3) cc(2) by (intro exI [of _ b]) simp
  qed
qed

lemma closeGroups_inv:
  "parser_inv p \<Longrightarrow> \<exists>c. closeGroups n p = Some (p\<lparr>curr := c\<rparr>) \<and> parser_inv (p\<lparr>curr := c\<rparr>)"
proof (induction n arbitrary: p)
  case 0
  have "p\<lparr>curr := curr p\<rparr> = p" by simp
  then show ?case using 0 by (intro exI [of _ "curr p"]) simp
next
  case (Suc n)
  obtain c where c: "closeGroup p = Some (p\<lparr>curr := c\<rparr>)" "parser_inv (p\<lparr>curr := c\<rparr>)"
    using closeGroup_inv [OF Suc.prems] by blast
  from Suc.IH [OF c(2)] show ?case by (simp add: c(1))
qed

lemma openGroups_inv:
  "parser_inv p \<Longrightarrow> parser_inv (openGroups n p) \<and> grows p (openGroups n p)"
proof (induction n arbitrary: p)
  case 0
  then show ?case by simp
next
  case (Suc n)
  have "parser_inv (openGroup p)" "grows p (openGroup p)"
    using openGroup_inv [OF Suc.prems] by simp_all
  then show ?case using Suc.IH [of "openGroup p"] by (auto intro: grows_trans)
qed

lemma levelChange_inv:
  assumes "parser_inv p"
  shows "\<exists>q. levelChange d p = Some q \<and> parser_inv q \<and> grows p q"
proof -
  obtain c where "closeGroups (nat (- d)) p = Some (p\<lparr>curr := c\<rparr>)" "parser_inv (p\<lparr>curr := c\<rparr>)"
    using closeGroups_inv [OF assms] by blast
  then show ?thesis
    using openGroups_inv [OF assms, of "nat d"] assms by (simp add: levelChange_def)
qed

section \<open>Lookahead and the cursor\<close>

lemma Are_one: "Are ts [k] \<longleftrightarrow> ts \<noteq> [] \<and> TKind (hd ts) = k"
  by (cases ts) simp_all

lemma Are_two:
  "Are ts [k, k'] \<longleftrightarrow> 2 \<le> length ts \<and> TKind (ts ! 0) = k \<and> TKind (ts ! 1) = k'"
proof (cases ts)
  case Nil
  then show ?thesis by simp
next
  case (Cons a as)
  then show ?thesis by (cases as) auto
qed

lemma Tokens_eq: "Tokens g = drop (pos g) (tokens g)"
  by (simp add: Tokens_def Let_def)

lemma Are_Tokens_one:
  "Are (Tokens g) [k] \<longleftrightarrow> pos g < length (tokens g) \<and> TKind (tokens g ! pos g) = k"
  by (auto simp: Are_one Tokens_eq hd_drop_conv_nth)

lemma Are_Tokens_two:
  "Are (Tokens g) [k, k'] \<longleftrightarrow>
     pos g + 1 < length (tokens g) \<and> TKind (tokens g ! pos g) = k \<and>
     TKind (tokens g ! (pos g + 1)) = k'"
  by (auto simp: Are_two Tokens_eq)

lemma Next_some:
  "pos g < length (tokens g) \<Longrightarrow> Next g = (Some (tokens g ! pos g), g\<lparr>pos := pos g + 1\<rparr>)"
  by (simp add: Next_def)

lemma Next_none: "length (tokens g) \<le> pos g \<Longrightarrow> Next g = (None, g)"
  by (simp add: Next_def)

text \<open>The loop over the tokens of a line, one round unfolded, with the cursor as an index.\<close>

lemma drain_end: "length (tokens g) \<le> pos g \<Longrightarrow> drain p g = Inr p"
  by (subst drain.simps) (simp add: Next_none)

lemma drain_step:
  assumes "pos g < length (tokens g)"
  shows "drain p g =
     (case TKind (tokens g ! pos g) of
        TOKEN_SECTION \<Rightarrow>
          drain (fst (addNode (closeAllGroups p) NODE_SECTION [TText (tokens g ! pos g)]))
            (g\<lparr>pos := pos g + 1\<rparr>)
      | TOKEN_TEXT \<Rightarrow>
          drain (fst (addNode p NODE_TEXT [TText (tokens g ! pos g)])) (g\<lparr>pos := pos g + 1\<rparr>)
      | TOKEN_STAR \<Rightarrow>
          (if Are (Tokens (g\<lparr>pos := pos g + 1\<rparr>)) [TOKEN_TEXT, TOKEN_STAR]
           then drain (fst (addNode p NODE_TEXTBOLD [TText (tokens g ! (pos g + 1))]))
                  (g\<lparr>pos := pos g + 3\<rparr>)
           else drain p (g\<lparr>pos := pos g + 1\<rparr>))
      | TOKEN_UNDERLINE \<Rightarrow>
          (if Are (Tokens (g\<lparr>pos := pos g + 1\<rparr>)) [TOKEN_TEXT, TOKEN_UNDERLINE]
           then drain (fst (addNode p NODE_TEXTUNDERLINE [TText (tokens g ! (pos g + 1))]))
                  (g\<lparr>pos := pos g + 3\<rparr>)
           else drain p (g\<lparr>pos := pos g + 1\<rparr>))
      | _ \<Rightarrow> drain p (g\<lparr>pos := pos g + 1\<rparr>))"
  using assms
  by (subst drain.simps)
     (auto simp: Next_some Are_Tokens_two numeral_3_eq_3 split: TokenKind.split)

section \<open>A whole line keeps the shape\<close>

lemma addNode_inv:
  assumes "parser_inv p" "k \<noteq> NODE_LISTITEM"
  shows "parser_inv (fst (addNode p k t))" and "grows p (fst (addNode p k t))"
    and "curr (fst (addNode p k t)) = curr p"
proof -
  have wf: "parser_wf p" and nl: "Kind (heap p ! curr p) \<noteq> NODE_LIST"
    and c: "curr p < length (heap p)"
    using assms(1) by (simp_all add: parser_inv_def parser_wf_def)
  note f = addNode_facts [OF c, of k t]
  show "grows p (fst (addNode p k t))" "curr (fst (addNode p k t)) = curr p"
    using f by simp_all
  have "parser_wf (fst (addNode p k t))"
    using addNode_wf [OF wf] nl assms(2) by simp
  then show "parser_inv (fst (addNode p k t))"
    using nl f(3) grows_kind [OF f(2) c] by (simp add: parser_inv_def parser_wf_def)
qed

lemma blockItem_inv:
  assumes "parser_inv p"
  shows "\<exists>q g'. blockItem p g = Inr (q, g') \<and> parser_inv q \<and> grows p q \<and>
           tokens g' = tokens g \<and> level g' = level g \<and> pos g \<le> pos g'"
proof (cases "Are (Tokens g) [TOKEN_BLOCKITEM]")
  case False
  then show ?thesis using assms by (simp add: blockItem_def)
next
  case True
  then have nx: "Next g = (Some (tokens g ! pos g), g\<lparr>pos := pos g + 1\<rparr>)"
    by (simp add: Are_Tokens_one Next_some)
  define p1 where "p1 = (if Kind (heap p ! curr p) \<noteq> NODE_BLOCK
       then (let (p', n) = addNode p NODE_BLOCK [] in p'\<lparr>curr := n\<rparr>) else p)"
  have p1: "parser_inv p1 \<and> grows p p1"
  proof (cases "Kind (heap p ! curr p) \<noteq> NODE_BLOCK")
    case True
    have wf: "parser_wf p" and k: "Kind (heap p ! curr p) = NODE_LIST \<longleftrightarrow> NODE_BLOCK = NODE_LISTITEM"
      using assms by (simp_all add: parser_inv_def parser_wf_def)
    note d = descend_inv [OF wf k, of "[]"]
    show ?thesis
      using True d(1,2,3) by (simp add: p1_def parser_inv_def parser_wf_def)
  next
    case False
    then show ?thesis using assms by (simp add: p1_def)
  qed
  have "blockItem p g = Inr (fst (addNode p1 NODE_TEXT [TText (tokens g ! pos g)]), g\<lparr>pos := pos g + 1\<rparr>)"
    using True by (simp add: blockItem_def nx p1_def)
  moreover have "parser_inv (fst (addNode p1 NODE_TEXT [TText (tokens g ! pos g)]))"
    "grows p (fst (addNode p1 NODE_TEXT [TText (tokens g ! pos g)]))"
    using addNode_inv [of p1 NODE_TEXT] p1 by (auto intro: grows_trans)
  ultimately show ?thesis by simp
qed

lemma listContainer_inv:
  assumes "parser_inv p"
  shows "\<exists>q. listContainer p = Inr q \<and> parser_wf q \<and> grows p q \<and>
           Kind (heap q ! curr q) = NODE_LIST"
proof -
  have wf: "parser_wf p" and nl: "Kind (heap p ! curr p) \<noteq> NODE_LIST"
    and c: "curr p < length (heap p)" "root p \<le> curr p" and inv: "tree_inv (heap p) (root p)"
    using assms by (simp_all add: parser_inv_def parser_wf_def)
  show ?thesis
  proof (cases "Kind (heap p ! curr p) = NODE_LISTITEM")
    case True
    then have "curr p \<noteq> root p" using tree_inv_root [OF inv] by auto
    then have "root p < curr p" using c by simp
    then obtain b where b: "Parent (heap p ! curr p) = Some b" "root p \<le> b" "b < curr p"
      "Kind (heap p ! b) = NODE_LIST"
      using tree_inv_parent [OF inv _ c(1)] True by auto
    then have "listContainer p = Inr (p\<lparr>curr := b\<rparr>)"
      using True by (simp add: listContainer_def)
    moreover have "parser_wf (p\<lparr>curr := b\<rparr>)"
      using b c inv by (simp add: parser_wf_def)
    ultimately show ?thesis using b(4) by simp
  next
    case False
    have k: "Kind (heap p ! curr p) = NODE_LIST \<longleftrightarrow> NODE_LIST = NODE_LISTITEM"
      using nl by simp
    note d = descend_inv [OF wf k, of "[]"]
    have "listContainer p = Inr (let (p', n) = addNode p NODE_LIST [] in p'\<lparr>curr := n\<rparr>)"
      using False nl by (simp add: listContainer_def split: NodeKind.split)
    then show ?thesis using d(1,2,3) by simp
  qed
qed

lemma listItem_inv:
  assumes "parser_inv p"
  shows "\<exists>q g'. listItem p g = Inr (q, g') \<and> parser_inv q \<and> grows p q \<and>
           tokens g' = tokens g \<and> level g' = level g \<and> pos g \<le> pos g'"
proof (cases "Are (Tokens g) [TOKEN_LISTITEM]")
  case False
  then show ?thesis using assms by (simp add: listItem_def)
next
  case True
  then have nx: "Next g = (Some (tokens g ! pos g), g\<lparr>pos := pos g + 1\<rparr>)"
    by (simp add: Are_Tokens_one Next_some)
  obtain p1 where p1: "listContainer p = Inr p1" "parser_wf p1" "grows p p1"
    "Kind (heap p1 ! curr p1) = NODE_LIST"
    using listContainer_inv [OF assms] by blast
  have k: "Kind (heap p1 ! curr p1) = NODE_LIST \<longleftrightarrow> NODE_LISTITEM = NODE_LISTITEM"
    using p1(4) by simp
  note d = descend_inv [OF p1(2) k, of "[TText (tokens g ! pos g)]"]
  have "listItem p g =
      Inr (let (p2, n) = addNode p1 NODE_LISTITEM [TText (tokens g ! pos g)] in p2\<lparr>curr := n\<rparr>,
           g\<lparr>pos := pos g + 1\<rparr>)"
    using True by (simp add: listItem_def nx p1(1) split_beta)
  moreover have "parser_inv (let (p2, n) = addNode p1 NODE_LISTITEM [TText (tokens g ! pos g)] in p2\<lparr>curr := n\<rparr>)"
    using d(1,3) by (simp add: parser_inv_def parser_wf_def)
  ultimately show ?thesis using d(2) p1(3) by (auto intro: grows_trans)
qed

lemma closeAllGroups_inv:
  assumes "parser_inv p"
  shows "parser_inv (closeAllGroups p)" and "grows p (closeAllGroups p)"
  using assms tree_inv_root [of "heap p" "root p"]
  by (simp_all add: closeAllGroups_def parser_inv_def)

lemma drain_inv:
  assumes "parser_inv p"
  shows "\<exists>q. drain p g = Inr q \<and> parser_inv q \<and> grows p q"
  using assms
proof (induction "length (tokens g) - pos g" arbitrary: p g rule: less_induct)
  case less
  show ?case
  proof (cases "pos g < length (tokens g)")
    case False
    then show ?thesis using less.prems by (simp add: drain_end)
  next
    case True
    have IH: "\<exists>q. drain p' g' = Inr q \<and> parser_inv q \<and> grows p q"
      if "parser_inv p'" "grows p p'" "tokens g' = tokens g" "pos g < pos g'" for p' g'
    proof -
      have "length (tokens g') - pos g' < length (tokens g) - pos g"
        using True that(3,4) by simp
      from less.hyps [OF this that(1)] that(2) show ?thesis
        by (auto intro: grows_trans)
    qed
    note cl = closeAllGroups_inv [OF less.prems]
    have sec: "parser_inv (fst (addNode (closeAllGroups p) NODE_SECTION t))"
      "grows p (fst (addNode (closeAllGroups p) NODE_SECTION t))" for t
      using addNode_inv [OF cl(1), of NODE_SECTION t] cl(2) by (auto intro: grows_trans)
    have add: "parser_inv (fst (addNode p k t))" "grows p (fst (addNode p k t))"
      if "k \<noteq> NODE_LISTITEM" for k t
      using addNode_inv [OF less.prems that] by simp_all
    show ?thesis
      by (cases "TKind (tokens g ! pos g)")
        (simp_all add: drain_step [OF True] IH sec add less.prems)
  qed
qed

lemma lineBody_inv:
  assumes "parser_inv p"
  shows "\<exists>q. lineBody p g = Inr q \<and> parser_inv q \<and> grows p q \<and> onAdd q = None"
proof -
  obtain p1 g1 where 1: "blockItem p g = Inr (p1, g1)" "parser_inv p1" "grows p p1"
    using blockItem_inv [OF assms] by blast
  obtain p2 g2 where 2: "listItem p1 g1 = Inr (p2, g2)" "parser_inv p2" "grows p1 p2"
    using listItem_inv [OF 1(2)] by blast
  have "parser_inv (armHook p2)" "grows p2 (armHook p2)"
    using 2(2) by (simp_all add: armHook_def)
  then obtain p3 where 3: "drain (armHook p2) g2 = Inr p3" "parser_inv p3" "grows p2 p3"
    using drain_inv [of "armHook p2" g2] by (auto intro: grows_trans)
  have "lineBody p g = Inr (clearHook p3)"
    by (simp add: lineBody_def 1(1) 2(1) 3(1))
  moreover have "parser_inv (clearHook p3)" "grows p3 (clearHook p3)" "onAdd (clearHook p3) = None"
    using 3(2) by (simp_all add: clearHook_def)
  ultimately show ?thesis
    using 1(3) 2(3) 3(3) by (auto intro: grows_trans)
qed

lemma parseLine_inv:
  assumes "parser_inv p"
  shows "\<exists>q l'. parseLine i (p, l) g = Some (Inr (q, l')) \<and> parser_inv q \<and> grows p q"
proof (cases "length (tokens g) = 0 \<and> i > 0")
  case True
  note cl = closeAllGroups_inv [OF assms]
  have "parser_inv (fst (addNode (closeAllGroups p) NODE_BREAK []))"
    "grows p (fst (addNode (closeAllGroups p) NODE_BREAK []))"
    using addNode_inv [OF cl(1), of NODE_BREAK "[]"] cl(2) by (auto intro: grows_trans)
  then show ?thesis using True by (simp add: parseLine_def)
next
  case False
  obtain p1 where 1: "levelChange (int (level g) - int l) p = Some p1" "parser_inv p1" "grows p p1"
    using levelChange_inv [OF assms] by blast
  obtain p2 where 2: "lineBody p1 g = Inr p2" "parser_inv p2" "grows p1 p2"
    using lineBody_inv [OF 1(2)] by blast
  have "parseLine i (p, l) g = Some (Inr (p2, level g))"
    using False by (auto simp: parseLine_def 1(1) 2(1))
  then show ?thesis using 1(3) 2(2,3) by (auto intro: grows_trans)
qed

lemma parseGroups_inv:
  assumes "parser_inv p"
  shows "\<exists>q l'. parseGroups i gs (p, l) = Some (Inr (q, l')) \<and> parser_inv q \<and> grows p q"
  using assms
proof (induction gs arbitrary: i p l)
  case Nil
  then show ?case by simp
next
  case (Cons g gs)
  obtain p1 l1 where 1: "parseLine i (p, l) g = Some (Inr (p1, l1))" "parser_inv p1" "grows p p1"
    using parseLine_inv [OF Cons.prems] by blast
  obtain q l' where "parseGroups (Suc i) gs (p1, l1) = Some (Inr (q, l'))" "parser_inv q"
    "grows p1 q"
    using Cons.IH [OF 1(2)] by blast
  then show ?case using 1(1,3) by (auto intro: grows_trans)
qed

section \<open>Splitting into lines\<close>

lemma last_tl_nonempty: "tl xs \<noteq> [] \<Longrightarrow> last (tl xs) = last xs"
  by (cases xs) auto

lemma line_decomp: "toks = leadingIndents toks @ bodyTokens toks @ restTokens toks"
  by (simp add: leadingIndents_def bodyTokens_def restTokens_def)

lemma restTokens_hd: "restTokens toks \<noteq> [] \<Longrightarrow> TKind (hd (restTokens toks)) = TOKEN_EOL"
proof -
  assume "restTokens toks \<noteq> []"
  then have "\<not> TKind (hd (restTokens toks)) \<noteq> TOKEN_EOL"
    unfolding restTokens_def by (rule hd_dropWhile)
  then show ?thesis by simp
qed

lemma no_EOL_before_rest:
  "t \<in> set (leadingIndents toks @ bodyTokens toks) \<Longrightarrow> TKind t \<noteq> TOKEN_EOL"
  by (auto simp: leadingIndents_def bodyTokens_def dest: set_takeWhileD)

lemma consumed_less:
  "length (leadingIndents toks) + length (bodyTokens toks) + 1 > length toks
     \<longleftrightarrow> restTokens toks = []"
proof -
  have "length toks = length (leadingIndents toks) + length (bodyTokens toks)
      + length (restTokens toks)"
    by (subst line_decomp [of toks]) simp
  then show ?thesis by (cases "restTokens toks") simp_all
qed

lemma drop_consumed:
  "drop (length (leadingIndents toks) + length (bodyTokens toks) + 1) toks = tl (restTokens toks)"
proof -
  have "drop (length (leadingIndents toks) + length (bodyTokens toks)) toks = restTokens toks"
    by (subst (3) line_decomp [of toks]) (simp add: drop_append)
  then have "drop 1 (drop (length (leadingIndents toks) + length (bodyTokens toks)) toks)
      = tl (restTokens toks)"
    by (simp add: drop_Suc)
  then show ?thesis by (simp add: add.commute)
qed

lemma splitGroups_step:
  "toks \<noteq> [] \<Longrightarrow>
   splitGroups toks acc =
     (if restTokens toks = [] then Inl SliceBoundsOutOfRange
      else splitGroups (tl (restTokens toks)) (acc @ [fst (NewTokenGroup toks)]))"
  using consumed_less [of toks] drop_consumed [of toks]
  by (subst splitGroups.simps) (simp add: NewTokenGroup_eq)

lemma splitGroups_nil: "splitGroups [] acc = Inr acc"
  by (subst splitGroups.simps) simp

lemma last_rest:
  assumes "toks \<noteq> []"
  shows "restTokens toks = [] \<Longrightarrow> TKind (last toks) \<noteq> TOKEN_EOL"
    and "restTokens toks \<noteq> [] \<Longrightarrow> last toks = last (restTokens toks)"
proof -
  assume e: "restTokens toks = []"
  then have "toks = leadingIndents toks @ bodyTokens toks"
    using line_decomp [of toks] by simp
  then have "last toks \<in> set (leadingIndents toks @ bodyTokens toks)"
    using assms last_in_set [of toks] by simp
  then show "TKind (last toks) \<noteq> TOKEN_EOL" by (rule no_EOL_before_rest)
next
  assume "restTokens toks \<noteq> []"
  then show "last toks = last (restTokens toks)"
    by (subst line_decomp [of toks]) simp
qed

lemma linesTerminated_rest:
  assumes "toks \<noteq> []" "linesTerminated toks"
  shows "restTokens toks \<noteq> []" and "linesTerminated (tl (restTokens toks))"
proof -
  have eol: "TKind (last toks) = TOKEN_EOL" using assms by (simp add: linesTerminated_def)
  show ne: "restTokens toks \<noteq> []" using last_rest(1) [OF assms(1)] eol by blast
  show "linesTerminated (tl (restTokens toks))"
  proof (cases "tl (restTokens toks)")
    case Nil
    then show ?thesis by (simp add: linesTerminated_def)
  next
    case (Cons a as)
    then have "last (tl (restTokens toks)) = last (restTokens toks)"
      by (intro last_tl_nonempty) simp
    then show ?thesis using last_rest(2) [OF assms(1) ne] eol by (simp add: linesTerminated_def)
  qed
qed

lemma unterminated_rest:
  assumes "toks \<noteq> []" "\<not> linesTerminated toks" "restTokens toks \<noteq> []"
  shows "tl (restTokens toks) \<noteq> []" and "\<not> linesTerminated (tl (restTokens toks))"
proof -
  have neol: "TKind (last toks) \<noteq> TOKEN_EOL" using assms by (simp add: linesTerminated_def)
  have l: "last toks = last (restTokens toks)" by (rule last_rest(2) [OF assms(1,3)])
  show ne: "tl (restTokens toks) \<noteq> []"
  proof
    assume "tl (restTokens toks) = []"
    then have "restTokens toks = [hd (restTokens toks)]"
      using assms(3) by (cases "restTokens toks") simp_all
    then have "last (restTokens toks) = last [hd (restTokens toks)]"
      by simp
    then have "last (restTokens toks) = hd (restTokens toks)"
      by simp
    then show False using restTokens_hd [OF assms(3)] neol l by simp
  qed
  then have "last (tl (restTokens toks)) = last (restTokens toks)"
    by (intro last_tl_nonempty)
  then show "\<not> linesTerminated (tl (restTokens toks))"
    using ne neol l by (simp add: linesTerminated_def)
qed

lemma length_tl_rest: "toks \<noteq> [] \<Longrightarrow> length (tl (restTokens toks)) < length toks"
proof -
  assume "toks \<noteq> []"
  have "length (restTokens toks) \<le> length toks"
    by (subst (2) line_decomp [of toks]) simp
  then show ?thesis using \<open>toks \<noteq> []\<close> by (cases "restTokens toks") auto
qed

lemma splitGroups_terminated:
  "linesTerminated toks \<Longrightarrow> \<exists>gs. splitGroups toks acc = Inr gs"
proof (induction "length toks" arbitrary: toks acc rule: less_induct)
  case less
  show ?case
  proof (cases "toks = []")
    case True
    then show ?thesis by (simp add: splitGroups_nil)
  next
    case False
    note r = linesTerminated_rest [OF False less.prems]
    show ?thesis
      using less.hyps [OF length_tl_rest [OF False] r(2)] r(1)
      by (simp add: splitGroups_step [OF False])
  qed
qed

lemma splitGroups_unterminated:
  "toks \<noteq> [] \<Longrightarrow> \<not> linesTerminated toks \<Longrightarrow> splitGroups toks acc = Inl SliceBoundsOutOfRange"
proof (induction "length toks" arbitrary: toks acc rule: less_induct)
  case less
  show ?case
  proof (cases "restTokens toks = []")
    case True
    then show ?thesis by (simp add: splitGroups_step [OF less.prems(1)])
  next
    case False
    note r = unterminated_rest [OF less.prems False]
    show ?thesis
      using less.hyps [OF length_tl_rest [OF less.prems(1)] r] False
      by (simp add: splitGroups_step [OF less.prems(1)])
  qed
qed

section \<open>The whole run\<close>

lemma Parse_start:
  "Parse p toks =
     (if length toks = 0 then Some (Inr (start p))
      else (case splitGroups toks [] of
              Inl e \<Rightarrow> Some (Inl e)
            | Inr groups \<Rightarrow>
                (case parseGroups 0 groups (start p, 0) of
                   None \<Rightarrow> None
                 | Some (Inl e) \<Rightarrow> Some (Inl e)
                 | Some (Inr (p1, lastLevel)) \<Rightarrow> Some (Inr p1))))"
  unfolding Parse_def alloc_def start_def Let_def by simp

lemma start_inv: "parser_inv (start p)"
  unfolding parser_inv_def tree_inv_def start_def by (auto simp: nth_append less_Suc_eq)

lemma Parse_inv:
  assumes "Parse p toks = Some (Inr q)"
  shows "parser_inv q" and "grows (start p) q"
proof -
  have "parser_inv q \<and> grows (start p) q"
  proof (cases "length toks = 0")
    case True
    then show ?thesis using assms start_inv [of p] by (auto simp: Parse_start)
  next
    case False
    then obtain gs where gs: "splitGroups toks [] = Inr gs"
      using assms by (auto simp: Parse_start split: sum.splits)
    obtain q' l' where "parseGroups 0 gs (start p, 0) = Some (Inr (q', l'))" "parser_inv q'"
      "grows (start p) q'"
      using parseGroups_inv [OF start_inv] by blast
    then show ?thesis using assms False gs by (simp add: Parse_start)
  qed
  then show "parser_inv q" and "grows (start p) q" by simp_all
qed

section \<open>Evaluating a run\<close>

lemma openGroups_numeral:
  "openGroups (numeral n) p = openGroups (pred_numeral n) (openGroup p)"
  by (simp add: numeral_eq_Suc)

lemma closeGroups_numeral:
  "closeGroups (numeral n) p =
     (case closeGroup p of None \<Rightarrow> None | Some p1 \<Rightarrow> closeGroups (pred_numeral n) p1)"
  by (simp add: numeral_eq_Suc)

lemmas parse_eval =
  Parse_start splitGroups_step splitGroups_nil restTokens_def NewTokenGroup_eq leadingIndents_def
  bodyTokens_def NewToken_def NewTokenWithText_def
  parseLine_def levelChange_def closeGroup_def closeGroupLoop.simps
  lineBody_def blockItem_def listItem_def listContainer_def Tokens_eq Next_def armHook_def
  lastNode_def IsTextNode_def drain_step drain_end addNode_plain addNode_hook_text
  addNode_hook_other graft_def child_def nodeOf_def NewNode_def NewNodeWithText_def
  clearHook_def closeAllGroups_def openGroup_def start_def NewParser_def
  openGroups_numeral closeGroups_numeral

lemma run_two_items:
  "Parse NewParser
     [NewTokenWithText TOKEN_LISTITEM ''first'', NewToken TOKEN_EOL,
      NewTokenWithText TOKEN_LISTITEM ''second'', NewToken TOKEN_EOL] =
   Some (Inr \<lparr>heap =
     [\<lparr>Kind = NODE_GROUP, Text = '''', Parent = None, Childs = [1]\<rparr>,
      \<lparr>Kind = NODE_LIST, Text = '''', Parent = Some 0, Childs = [2, 3]\<rparr>,
      \<lparr>Kind = NODE_LISTITEM, Text = ''first'', Parent = Some 1, Childs = []\<rparr>,
      \<lparr>Kind = NODE_LISTITEM, Text = ''second'', Parent = Some 1, Childs = []\<rparr>],
     root = 0, curr = 3, onAdd = None\<rparr>)"
  by (simp add: parse_eval)

section \<open>Invariants of the returned tree\<close>

lemma climb_to_root:
  "tree_inv h r \<Longrightarrow> r \<le> a \<Longrightarrow> a < length h \<Longrightarrow> \<exists>n \<le> a - r. climb h n a = Some r"
proof (induction a rule: less_induct)
  case (less a)
  show ?case
  proof (cases "a = r")
    case True
    then show ?thesis by (intro exI [of _ 0]) simp
  next
    case False
    then have "r < a" using less.prems by simp
    then obtain b where b: "Parent (h ! a) = Some b" "r \<le> b" "b < a"
      using tree_inv_parent [OF less.prems(1) _ less.prems(3)] by blast
    then have "b < length h" using less.prems(3) by simp
    from less.IH [OF b(3) less.prems(1) b(2) this]
    obtain n where n: "n \<le> b - r" "climb h n b = Some r" by blast
    show ?thesis
      using n b by (intro exI [of _ "Suc n"]) auto
  qed
qed

lemma isAncestor_root:
  "tree_inv h r \<Longrightarrow> r \<le> a \<Longrightarrow> a < length h \<Longrightarrow> isAncestor h r a"
  unfolding isAncestor_def using climb_to_root [of h r a] by (meson diff_le_self le_trans less_imp_le_nat)

lemma closeGroup_at_root:
  "Parent (heap p ! curr p) = None \<Longrightarrow> closeGroup p = Some p"
  by (simp add: closeGroup_def closeGroupLoop.simps [of p])

text \<open>
  C8: closing an indentation level when the current node is the root, which has no parent,
  is a no-op: \<open>closeGroup\<close> returns the parser unchanged. In the parser that \<open>Parse\<close> returns,
  whatever the input and the receiver, the root has no parent, and from every node that the
  call has allocated the parent pointers lead to the root.
\<close>

theorem root_stays_on_top:
  "(curr p = root p \<and> Parent (heap p ! root p) = None \<longrightarrow> closeGroup p = Some p) \<and>
   (Parse p' toks = Some (Inr q) \<longrightarrow>
      Parent (heap q ! root q) = None \<and>
      closeGroup (closeAllGroups q) = Some (closeAllGroups q)) \<and>
   (Parse p' toks = Some (Inr q) \<and> root q \<le> a \<and> a < length (heap q) \<longrightarrow>
      isAncestor (heap q) (root q) a)"
proof (intro conjI impI)
  assume "curr p = root p \<and> Parent (heap p ! root p) = None"
  then show "closeGroup p = Some p" by (simp add: closeGroup_at_root)
next
  assume "Parse p' toks = Some (Inr q)"
  then have "parser_inv q" by (rule Parse_inv(1))
  then have "tree_inv (heap q) (root q)" by (simp add: parser_inv_def)
  then show "Parent (heap q ! root q) = None" by (simp add: tree_inv_root)
  then show "closeGroup (closeAllGroups q) = Some (closeAllGroups q)"
    by (intro closeGroup_at_root) (simp add: closeAllGroups_def)
next
  assume a: "Parse p' toks = Some (Inr q) \<and> root q \<le> a \<and> a < length (heap q)"
  then have "parser_inv q" by (intro Parse_inv(1) [of p' toks]) simp
  then have "tree_inv (heap q) (root q)" by (simp add: parser_inv_def)
  then show "isAncestor (heap q) (root q) a" using a by (simp add: isAncestor_root)
qed

theorem root_stays_on_top_witness:
  "curr (start NewParser) = root (start NewParser) \<and>
   Parent (heap (start NewParser) ! root (start NewParser)) = None \<and>
   closeGroup (start NewParser) = Some (start NewParser) \<and>
   Parse NewParser
     [NewTokenWithText TOKEN_LISTITEM ''first'', NewToken TOKEN_EOL,
      NewTokenWithText TOKEN_LISTITEM ''second'', NewToken TOKEN_EOL] =
   Some (Inr \<lparr>heap =
     [\<lparr>Kind = NODE_GROUP, Text = '''', Parent = None, Childs = [1]\<rparr>,
      \<lparr>Kind = NODE_LIST, Text = '''', Parent = Some 0, Childs = [2, 3]\<rparr>,
      \<lparr>Kind = NODE_LISTITEM, Text = ''first'', Parent = Some 1, Childs = []\<rparr>,
      \<lparr>Kind = NODE_LISTITEM, Text = ''second'', Parent = Some 1, Childs = []\<rparr>],
     root = 0, curr = 3, onAdd = None\<rparr>) \<and>
   isAncestor
     [\<lparr>Kind = NODE_GROUP, Text = '''', Parent = None, Childs = [1]\<rparr>,
      \<lparr>Kind = NODE_LIST, Text = '''', Parent = Some 0, Childs = [2, 3]\<rparr>,
      \<lparr>Kind = NODE_LISTITEM, Text = ''first'', Parent = Some 1, Childs = []\<rparr>,
      \<lparr>Kind = NODE_LISTITEM, Text = ''second'', Parent = Some 1, Childs = []\<rparr>] 0 3"
  using root_stays_on_top [of "start NewParser" NewParser
      "[NewTokenWithText TOKEN_LISTITEM ''first'', NewToken TOKEN_EOL,
        NewTokenWithText TOKEN_LISTITEM ''second'', NewToken TOKEN_EOL]"
      "\<lparr>heap =
     [\<lparr>Kind = NODE_GROUP, Text = '''', Parent = None, Childs = [1]\<rparr>,
      \<lparr>Kind = NODE_LIST, Text = '''', Parent = Some 0, Childs = [2, 3]\<rparr>,
      \<lparr>Kind = NODE_LISTITEM, Text = ''first'', Parent = Some 1, Childs = []\<rparr>,
      \<lparr>Kind = NODE_LISTITEM, Text = ''second'', Parent = Some 1, Childs = []\<rparr>],
     root = 0, curr = 3, onAdd = None\<rparr>" 3]
    run_two_items
  by (simp add: start_def NewParser_def)

text \<open>
  C9: in the tree that \<open>Parse\<close> returns, whatever the input and the receiver, every child of
  every List node is a ListItem node.
\<close>

theorem list_children_are_items:
  assumes "Parse p toks = Some (Inr q)"
    and "root q \<le> a" "a < length (heap q)" "Kind (heap q ! a) = NODE_LIST"
    and "c \<in> set (Childs (heap q ! a))"
  shows "Kind (heap q ! c) = NODE_LISTITEM"
proof -
  have inv: "tree_inv (heap q) (root q)"
    using Parse_inv(1) [OF assms(1)] by (simp add: parser_inv_def)
  have c: "a < c" "c < length (heap q)" "Parent (heap q ! c) = Some a"
    using tree_inv_child [OF inv assms(2,3,5)] by simp_all
  then have "root q < c" using assms(2) by simp
  from tree_inv_parent [OF inv this c(2)] show ?thesis
    using c(3) assms(4) by auto
qed

theorem list_children_are_items_witness:
  "Parse NewParser
     [NewTokenWithText TOKEN_LISTITEM ''first'', NewToken TOKEN_EOL,
      NewTokenWithText TOKEN_LISTITEM ''second'', NewToken TOKEN_EOL] =
   Some (Inr \<lparr>heap =
     [\<lparr>Kind = NODE_GROUP, Text = '''', Parent = None, Childs = [1]\<rparr>,
      \<lparr>Kind = NODE_LIST, Text = '''', Parent = Some 0, Childs = [2, 3]\<rparr>,
      \<lparr>Kind = NODE_LISTITEM, Text = ''first'', Parent = Some 1, Childs = []\<rparr>,
      \<lparr>Kind = NODE_LISTITEM, Text = ''second'', Parent = Some 1, Childs = []\<rparr>],
     root = 0, curr = 3, onAdd = None\<rparr>) \<and>
   Kind ([\<lparr>Kind = NODE_GROUP, Text = '''', Parent = None, Childs = [1]\<rparr>,
      \<lparr>Kind = NODE_LIST, Text = '''', Parent = Some 0, Childs = [2, 3]\<rparr>,
      \<lparr>Kind = NODE_LISTITEM, Text = ''first'', Parent = Some 1, Childs = []\<rparr>,
      \<lparr>Kind = NODE_LISTITEM, Text = ''second'', Parent = Some 1, Childs = []\<rparr>] ! 1)
     = NODE_LIST \<and>
   (3::nat) \<in> set [2, 3] \<and>
   Kind ([\<lparr>Kind = NODE_GROUP, Text = '''', Parent = None, Childs = [1]\<rparr>,
      \<lparr>Kind = NODE_LIST, Text = '''', Parent = Some 0, Childs = [2, 3]\<rparr>,
      \<lparr>Kind = NODE_LISTITEM, Text = ''first'', Parent = Some 1, Childs = []\<rparr>,
      \<lparr>Kind = NODE_LISTITEM, Text = ''second'', Parent = Some 1, Childs = []\<rparr>] ! 3)
     = NODE_LISTITEM"
  using list_children_are_items [OF run_two_items, of 1 3] run_two_items
  by simp

text \<open>
  C10: \<open>Parse\<close> advances with the slice \<open>tokens[consumed+1:]\<close>. When every line of the input
  ends with an end of line, the index never exceeds the length of the remaining tokens (the
  split returns its groups) and \<open>Parse\<close> runs to completion, returning a parser. When the
  input is not empty and its last line lacks the end of line, the slice is out of bounds.
\<close>

theorem Parse_needs_final_EOL:
  "(linesTerminated toks \<longrightarrow>
      (\<exists>gs. splitGroups toks [] = Inr gs) \<and> (\<exists>q. Parse p toks = Some (Inr q))) \<and>
   (toks \<noteq> [] \<and> \<not> linesTerminated toks \<longrightarrow>
      Parse p toks = Some (Inl SliceBoundsOutOfRange))"
proof (intro conjI impI)
  assume t: "linesTerminated toks"
  then obtain gs where gs: "splitGroups toks [] = Inr gs"
    using splitGroups_terminated by blast
  then show "\<exists>gs. splitGroups toks [] = Inr gs" by blast
  obtain q l where "parseGroups 0 gs (start p, 0) = Some (Inr (q, l))"
    using parseGroups_inv [OF start_inv] by blast
  then show "\<exists>q. Parse p toks = Some (Inr q)"
    using gs by (simp add: Parse_start)
next
  assume "toks \<noteq> [] \<and> \<not> linesTerminated toks"
  then show "Parse p toks = Some (Inl SliceBoundsOutOfRange)"
    by (simp add: Parse_start splitGroups_unterminated)
qed

theorem Parse_needs_final_EOL_witness:
  "linesTerminated [NewTokenWithText TOKEN_TEXT ''a'', NewToken TOKEN_EOL] \<and>
   (\<exists>q. Parse NewParser [NewTokenWithText TOKEN_TEXT ''a'', NewToken TOKEN_EOL] = Some (Inr q)) \<and>
   [NewTokenWithText TOKEN_TEXT ''a''] \<noteq> [] \<and>
   \<not> linesTerminated [NewTokenWithText TOKEN_TEXT ''a''] \<and>
   Parse NewParser [NewTokenWithText TOKEN_TEXT ''a''] = Some (Inl SliceBoundsOutOfRange)"
  using Parse_needs_final_EOL [of "[NewTokenWithText TOKEN_TEXT ''a'', NewToken TOKEN_EOL]" NewParser]
    Parse_needs_final_EOL [of "[NewTokenWithText TOKEN_TEXT ''a'']" NewParser]
  by (simp add: linesTerminated_def NewToken_def NewTokenWithText_def)

section \<open>Inline spans\<close>

text \<open>
  C5: the line \<open>Bold-delimiter, Text(w), Bold-delimiter\<close> yields one TextBold node with the
  text \<open>w\<close> below the root and nothing else; the unmatched line \<open>Bold-delimiter, Text(w)\<close>
  yields only a Text node with the text \<open>w\<close>, the delimiter leaves no node, and the run
  returns without panic. The same holds for the underline delimiter and TextUnderline.
\<close>

theorem bold_pairing:
  "Parse NewParser
     [NewToken TOKEN_STAR, NewTokenWithText TOKEN_TEXT w, NewToken TOKEN_STAR,
      NewToken TOKEN_EOL] =
   Some (Inr \<lparr>heap =
     [\<lparr>Kind = NODE_GROUP, Text = '''', Parent = None, Childs = [1]\<rparr>,
      \<lparr>Kind = NODE_TEXTBOLD, Text = w, Parent = Some 0, Childs = []\<rparr>],
     root = 0, curr = 0, onAdd = None\<rparr>) \<and>
   Parse NewParser
     [NewToken TOKEN_STAR, NewTokenWithText TOKEN_TEXT w, NewToken TOKEN_EOL] =
   Some (Inr \<lparr>heap =
     [\<lparr>Kind = NODE_GROUP, Text = '''', Parent = None, Childs = [1]\<rparr>,
      \<lparr>Kind = NODE_TEXT, Text = w, Parent = Some 0, Childs = []\<rparr>],
     root = 0, curr = 0, onAdd = None\<rparr>) \<and>
   Parse NewParser
     [NewToken TOKEN_UNDERLINE, NewTokenWithText TOKEN_TEXT w, NewToken TOKEN_UNDERLINE,
      NewToken TOKEN_EOL] =
   Some (Inr \<lparr>heap =
     [\<lparr>Kind = NODE_GROUP, Text = '''', Parent = None, Childs = [1]\<rparr>,
      \<lparr>Kind = NODE_TEXTUNDERLINE, Text = w, Parent = Some 0, Childs = []\<rparr>],
     root = 0, curr = 0, onAdd = None\<rparr>) \<and>
   Parse NewParser
     [NewToken TOKEN_UNDERLINE, NewTokenWithText TOKEN_TEXT w, NewToken TOKEN_EOL] =
   Some (Inr \<lparr>heap =
     [\<lparr>Kind = NODE_GROUP, Text = '''', Parent = None, Childs = [1]\<rparr>,
      \<lparr>Kind = NODE_TEXT, Text = w, Parent = Some 0, Childs = []\<rparr>],
     root = 0, curr = 0, onAdd = None\<rparr>)"
  by (simp add: parse_eval)

section \<open>Empty lines\<close>

lemma addNode_eq:
  assumes "curr p < length (heap p)"
  shows "addNode p k t =
     (if onAdd p \<noteq> None \<and> IsTextNode (nodeOf k t)
      then (p\<lparr>heap := graft (heap p) (curr p) [Suc (length (heap p)), length (heap p)]
                          [child (curr p) (nodeOf k t), child (curr p) (NewNode NODE_SPACE)],
                onAdd := None\<rparr>, length (heap p))
      else (p\<lparr>heap := graft (heap p) (curr p) [length (heap p)] [child (curr p) (nodeOf k t)],
                onAdd := None\<rparr>, length (heap p)))"
proof (cases "onAdd p")
  case None
  then have "p\<lparr>heap := h, onAdd := None\<rparr> = p\<lparr>heap := h\<rparr>" for h by simp
  then show ?thesis using None assms by (simp add: addNode_plain del: IsTextNode_nodeOf)
next
  case (Some cb)
  then show ?thesis
    using addNode_hook_text [OF Some assms, of k t] addNode_hook_other [OF Some assms, of k t]
    by (simp del: IsTextNode_nodeOf)
qed

lemma empty_line_step:
  assumes "tokens g = []" "0 < i" "root p < length (heap p)"
  shows "parseLine i (p, l) g =
     Some (Inr (p\<lparr>heap := graft (heap p) (root p) [length (heap p)]
                              [child (root p) (NewNode NODE_BREAK)],
                    curr := root p, onAdd := None\<rparr>, l))"
  using assms by (simp add: parseLine_def closeAllGroups_def addNode_eq) (simp add: nodeOf_def)

text \<open>
  C6: for a line group without tokens that is not the first group, the step of \<open>Parse\<close> sets
  current to the root, appends one Break node to the children of the root, and does nothing
  else: no level change, and the level of the previous line is kept. So the lines
  \<open>Text(a)\<close>, empty, \<open>Text(b)\<close> give below the root Text \<open>a\<close>, Break, Text \<open>b\<close>; and when
  the first line is indented, its text sits in a group below the root, and the Break and the
  text of the third line are children of the root.
\<close>

theorem break_on_empty_line:
  "(tokens g = [] \<and> 0 < i \<and> root p < length (heap p) \<longrightarrow>
      parseLine i (p, l) g =
        Some (Inr (p\<lparr>heap := graft (heap p) (root p) [length (heap p)]
                                 [child (root p) (NewNode NODE_BREAK)],
                       curr := root p, onAdd := None\<rparr>, l))) \<and>
   Parse NewParser
     [NewTokenWithText TOKEN_TEXT a, NewToken TOKEN_EOL, NewToken TOKEN_EOL,
      NewTokenWithText TOKEN_TEXT b, NewToken TOKEN_EOL] =
   Some (Inr \<lparr>heap =
     [\<lparr>Kind = NODE_GROUP, Text = '''', Parent = None, Childs = [1, 2, 3]\<rparr>,
      \<lparr>Kind = NODE_TEXT, Text = a, Parent = Some 0, Childs = []\<rparr>,
      \<lparr>Kind = NODE_BREAK, Text = '''', Parent = Some 0, Childs = []\<rparr>,
      \<lparr>Kind = NODE_TEXT, Text = b, Parent = Some 0, Childs = []\<rparr>],
     root = 0, curr = 0, onAdd = None\<rparr>) \<and>
   Parse NewParser
     [NewToken TOKEN_INDENT, NewTokenWithText TOKEN_TEXT a, NewToken TOKEN_EOL,
      NewToken TOKEN_EOL, NewTokenWithText TOKEN_TEXT b, NewToken TOKEN_EOL] =
   Some (Inr \<lparr>heap =
     [\<lparr>Kind = NODE_GROUP, Text = '''', Parent = None, Childs = [1, 3, 4]\<rparr>,
      \<lparr>Kind = NODE_GROUP, Text = '''', Parent = Some 0, Childs = [2]\<rparr>,
      \<lparr>Kind = NODE_TEXT, Text = a, Parent = Some 1, Childs = []\<rparr>,
      \<lparr>Kind = NODE_BREAK, Text = '''', Parent = Some 0, Childs = []\<rparr>,
      \<lparr>Kind = NODE_TEXT, Text = b, Parent = Some 0, Childs = []\<rparr>],
     root = 0, curr = 0, onAdd = None\<rparr>)"
  by (simp add: empty_line_step) (simp add: parse_eval)

theorem break_on_empty_line_witness:
  "tokens \<lparr>tokens = [], level = 0, pos = 0\<rparr> = [] \<and> (0::nat) < 1 \<and>
   root (start NewParser) < length (heap (start NewParser)) \<and>
   parseLine 1 (start NewParser, 0) \<lparr>tokens = [], level = 0, pos = 0\<rparr> =
     Some (Inr (\<lparr>heap =
       [\<lparr>Kind = NODE_GROUP, Text = '''', Parent = None, Childs = [1]\<rparr>,
        \<lparr>Kind = NODE_BREAK, Text = '''', Parent = Some 0, Childs = []\<rparr>],
       root = 0, curr = 0, onAdd = None\<rparr>, 0))"
  using break_on_empty_line [of "\<lparr>tokens = [], level = 0, pos = 0\<rparr>" 1 "start NewParser" 0]
  by (simp add: start_def NewParser_def graft_def child_def NewNode_def NewNodeWithText_def)

section \<open>List items\<close>

lemma first_list_item:
  assumes "curr p < length (heap p)" "onAdd p = None"
    and "Kind (heap p ! curr p) \<noteq> NODE_LIST" "Kind (heap p ! curr p) \<noteq> NODE_LISTITEM"
  shows "lineBody p \<lparr>tokens = [NewTokenWithText TOKEN_LISTITEM x], level = lv, pos = 0\<rparr> =
     Inr (p\<lparr>heap := graft (heap p) (curr p) [length (heap p)]
                   [\<lparr>Kind = NODE_LIST, Text = '''', Parent = Some (curr p),
                      Childs = [Suc (length (heap p))]\<rparr>,
                    \<lparr>Kind = NODE_LISTITEM, Text = x, Parent = Some (length (heap p)),
                      Childs = []\<rparr>],
             curr := Suc (length (heap p))\<rparr>)"
  using assms
  by (simp add: parse_eval nth_append list_update_append split: NodeKind.split)

lemma second_list_item:
  assumes "curr p < length (heap p)" "onAdd p = None"
    and "Kind (heap p ! curr p) = NODE_LISTITEM" "Parent (heap p ! curr p) = Some b"
    and "b < length (heap p)"
  shows "lineBody p \<lparr>tokens = [NewTokenWithText TOKEN_LISTITEM y], level = lv, pos = 0\<rparr> =
     Inr (p\<lparr>heap := graft (heap p) b [length (heap p)]
                   [\<lparr>Kind = NODE_LISTITEM, Text = y, Parent = Some b, Childs = []\<rparr>],
             curr := length (heap p)\<rparr>)"
  using assms
  by (simp add: parse_eval nth_append list_update_append)



section \<open>Section tokens\<close>

lemma addNode_under:
  assumes c: "curr p < length (heap p)"
  shows "\<forall>a. length (heap p) \<le> a \<and> a < length (heap (fst (addNode p k t))) \<longrightarrow>
           Parent (heap (fst (addNode p k t)) ! a) = Some (curr p) \<and>
           a \<in> set (Childs (heap (fst (addNode p k t)) ! curr p))"
    and "set (Childs (heap p ! curr p)) \<subseteq> set (Childs (heap (fst (addNode p k t)) ! curr p))"
proof -
  obtain cs nds where
    eq: "addNode p k t =
        (p\<lparr>heap := graft (heap p) (curr p) cs nds, onAdd := None\<rparr>, length (heap p))"
    and cs: "set cs = {length (heap p) ..< length (heap p) + length nds}"
    using addNode_shape [OF c, of k t] by blast
  have ch: "Childs (heap (fst (addNode p k t)) ! curr p) = Childs (heap p ! curr p) @ cs"
    using c by (simp add: eq graft_old)
  show "set (Childs (heap p ! curr p)) \<subseteq> set (Childs (heap (fst (addNode p k t)) ! curr p))"
    by (simp add: ch)
  show "\<forall>a. length (heap p) \<le> a \<and> a < length (heap (fst (addNode p k t))) \<longrightarrow>
           Parent (heap (fst (addNode p k t)) ! a) = Some (curr p) \<and>
           a \<in> set (Childs (heap (fst (addNode p k t)) ! curr p))"
    using addNode_facts(7) [OF c, of k t] cs by (simp add: ch) (simp add: eq)
qed

lemma underRoot_addNode:
  assumes "curr p = root p" "root p < length (heap p)"
  shows "underRoot p (fst (addNode p k t))"
  using assms addNode_under [of p k t] addNode_facts(2,3) [of p k t]
  by (simp add: underRoot_def)

lemma underRoot_refl: "curr p = root p \<Longrightarrow> underRoot p p"
  by (auto simp: underRoot_def)

lemma underRoot_trans:
  assumes "underRoot p q" "underRoot q r" "root p < length (heap p)"
  shows "underRoot p r"
proof -
  have g: "grows p q" "grows q r" and rq: "root q = root p"
    and lq: "length (heap p) \<le> length (heap q)" "length (heap q) \<le> length (heap r)"
    using assms by (simp_all add: underRoot_def grows_def)
  have "Parent (heap r ! a) = Some (root p) \<and> a \<in> set (Childs (heap r ! root p))"
    if a: "length (heap p) \<le> a" "a < length (heap r)" for a
  proof (cases "a < length (heap q)")
    case True
    then have "Parent (heap q ! a) = Some (root p)" "a \<in> set (Childs (heap q ! root p))"
      using assms(1) a by (simp_all add: underRoot_def)
    then show ?thesis
      using assms(2) grows_kind [OF g(2) True] rq by (auto simp: underRoot_def)
  next
    case False
    then show ?thesis using assms(2) a rq by (simp add: underRoot_def)
  qed
  moreover have "set (Childs (heap p ! root p)) \<subseteq> set (Childs (heap r ! root p))"
    using assms(1,2) rq by (auto simp: underRoot_def)
  moreover have "curr r = root p" using assms(2) rq by (simp add: underRoot_def)
  ultimately show ?thesis
    using grows_trans [OF g] by (simp add: underRoot_def)
qed

lemma drain_at_root:
  assumes "curr p = root p" "root p < length (heap p)"
  shows "\<exists>q. drain p g = Inr q \<and> underRoot p q"
  using assms
proof (induction "length (tokens g) - pos g" arbitrary: p g rule: less_induct)
  case less
  show ?case
  proof (cases "pos g < length (tokens g)")
    case False
    then show ?thesis using less.prems by (simp add: drain_end underRoot_refl)
  next
    case True
    have cl: "closeAllGroups p = p" using less.prems(1) by (simp add: closeAllGroups_def)
    have IH: "\<exists>q. drain p' g' = Inr q \<and> underRoot p q"
      if "underRoot p p'" "tokens g' = tokens g" "pos g < pos g'" for p' g'
    proof -
      have "length (tokens g') - pos g' < length (tokens g) - pos g"
        using True that(2,3) by simp
      moreover have "curr p' = root p'" "root p' < length (heap p')"
        using that(1) less.prems(2) by (auto simp: underRoot_def grows_def)
      ultimately obtain q where "drain p' g' = Inr q" "underRoot p' q"
        using less.hyps by blast
      then show ?thesis using underRoot_trans [OF that(1) _ less.prems(2)] by blast
    qed
    note add = underRoot_addNode [OF less.prems]
    show ?thesis
      by (cases "TKind (tokens g ! pos g)")
        (simp_all add: drain_step [OF True] IH add cl underRoot_refl less.prems)
  qed
qed

lemma run_section_nested:
  "Parse NewParser
     [NewToken TOKEN_INDENT, NewToken TOKEN_INDENT, NewToken TOKEN_INDENT,
      NewTokenWithText TOKEN_SECTION s, NewTokenWithText TOKEN_TEXT t, NewToken TOKEN_EOL] =
   Some (Inr \<lparr>heap =
     [\<lparr>Kind = NODE_GROUP, Text = '''', Parent = None, Childs = [1, 4, 5]\<rparr>,
      \<lparr>Kind = NODE_GROUP, Text = '''', Parent = Some 0, Childs = [2]\<rparr>,
      \<lparr>Kind = NODE_GROUP, Text = '''', Parent = Some 1, Childs = [3]\<rparr>,
      \<lparr>Kind = NODE_GROUP, Text = '''', Parent = Some 2, Childs = []\<rparr>,
      \<lparr>Kind = NODE_SECTION, Text = s, Parent = Some 0, Childs = []\<rparr>,
      \<lparr>Kind = NODE_TEXT, Text = t, Parent = Some 0, Childs = []\<rparr>],
     root = 0, curr = 0, onAdd = None\<rparr>)"
  by (simp add: parse_eval)

lemma run_section_then_item:
  "Parse NewParser
     [NewTokenWithText TOKEN_SECTION s, NewToken TOKEN_EOL,
      NewTokenWithText TOKEN_LISTITEM x, NewToken TOKEN_EOL] =
   Some (Inr \<lparr>heap =
     [\<lparr>Kind = NODE_GROUP, Text = '''', Parent = None, Childs = [1, 2]\<rparr>,
      \<lparr>Kind = NODE_SECTION, Text = s, Parent = Some 0, Childs = []\<rparr>,
      \<lparr>Kind = NODE_LIST, Text = '''', Parent = Some 0, Childs = [3]\<rparr>,
      \<lparr>Kind = NODE_LISTITEM, Text = x, Parent = Some 2, Childs = []\<rparr>],
     root = 0, curr = 3, onAdd = None\<rparr>)"
  by (simp add: parse_eval)

text \<open>
  C7, as amended: when the loop over the tokens of a line meets a Section token, at any
  nesting depth, it sets current to the root and appends a Section node with the token's text
  to the children of the root; every node that the remaining tokens of that line produce,
  too, is a child of the root, and current is the root when the line ends. (The next line
  then starts at the root, where a list-item or block-item marker opens its wrapper.) Three
  groups deep, the line \<open>Section(s), Text(t)\<close> puts both nodes below the root.
\<close>

theorem section_reset:
  "(root p < length (heap p) \<and> pos g < length (tokens g) \<and>
    TKind (tokens g ! pos g) = TOKEN_SECTION \<longrightarrow>
      (\<exists>q. drain p g = Inr q \<and> underRoot (closeAllGroups p) q \<and>
           length (heap p) < length (heap q) \<and>
           Kind (heap q ! length (heap p)) = NODE_SECTION \<and>
           Text (heap q ! length (heap p)) = TText (tokens g ! pos g))) \<and>
   Parse NewParser
     [NewToken TOKEN_INDENT, NewToken TOKEN_INDENT, NewToken TOKEN_INDENT,
      NewTokenWithText TOKEN_SECTION s, NewTokenWithText TOKEN_TEXT t, NewToken TOKEN_EOL] =
   Some (Inr \<lparr>heap =
     [\<lparr>Kind = NODE_GROUP, Text = '''', Parent = None, Childs = [1, 4, 5]\<rparr>,
      \<lparr>Kind = NODE_GROUP, Text = '''', Parent = Some 0, Childs = [2]\<rparr>,
      \<lparr>Kind = NODE_GROUP, Text = '''', Parent = Some 1, Childs = [3]\<rparr>,
      \<lparr>Kind = NODE_GROUP, Text = '''', Parent = Some 2, Childs = []\<rparr>,
      \<lparr>Kind = NODE_SECTION, Text = s, Parent = Some 0, Childs = []\<rparr>,
      \<lparr>Kind = NODE_TEXT, Text = t, Parent = Some 0, Childs = []\<rparr>],
     root = 0, curr = 0, onAdd = None\<rparr>)"
proof (intro conjI impI)
  assume a: "root p < length (heap p) \<and> pos g < length (tokens g) \<and>
    TKind (tokens g ! pos g) = TOKEN_SECTION"
  let ?p0 = "closeAllGroups p"
  let ?p1 = "fst (addNode ?p0 NODE_SECTION [TText (tokens g ! pos g)])"
  have c0: "curr ?p0 = root ?p0" "root ?p0 < length (heap ?p0)" "curr ?p0 < length (heap ?p0)"
    using a by (simp_all add: closeAllGroups_def)
  note f = addNode_facts [OF c0(3), of NODE_SECTION "[TText (tokens g ! pos g)]"]
  have u1: "underRoot ?p0 ?p1" by (rule underRoot_addNode [OF c0(1,2)])
  have c1: "curr ?p1 = root ?p1" "root ?p1 < length (heap ?p1)"
    using u1 c0(2) by (auto simp: underRoot_def grows_def)
  obtain q where q: "drain ?p1 (g\<lparr>pos := pos g + 1\<rparr>) = Inr q" "underRoot ?p1 q"
    using drain_at_root [OF c1] by blast
  have d: "drain p g = Inr q" using a q(1) by (simp add: drain_step)
  have u: "underRoot ?p0 q" by (rule underRoot_trans [OF u1 q(2) c0(2)])
  have n: "length (heap p) < length (heap ?p1)" "length (heap ?p1) \<le> length (heap q)"
    using f(5) q(2) by (simp_all add: closeAllGroups_def underRoot_def grows_def)
  have "grows ?p1 q" using q(2) by (simp add: underRoot_def)
  from grows_kind [OF this n(1)]
  have "Kind (heap q ! length (heap p)) = NODE_SECTION"
    "Text (heap q ! length (heap p)) = TText (tokens g ! pos g)"
    using f(6) by (simp_all add: closeAllGroups_def)
  then show "\<exists>q. drain p g = Inr q \<and> underRoot (closeAllGroups p) q \<and>
           length (heap p) < length (heap q) \<and>
           Kind (heap q ! length (heap p)) = NODE_SECTION \<and>
           Text (heap q ! length (heap p)) = TText (tokens g ! pos g)"
    using d u n by (intro exI [of _ q]) simp
next
  show "Parse NewParser
     [NewToken TOKEN_INDENT, NewToken TOKEN_INDENT, NewToken TOKEN_INDENT,
      NewTokenWithText TOKEN_SECTION s, NewTokenWithText TOKEN_TEXT t, NewToken TOKEN_EOL] =
   Some (Inr \<lparr>heap =
     [\<lparr>Kind = NODE_GROUP, Text = '''', Parent = None, Childs = [1, 4, 5]\<rparr>,
      \<lparr>Kind = NODE_GROUP, Text = '''', Parent = Some 0, Childs = [2]\<rparr>,
      \<lparr>Kind = NODE_GROUP, Text = '''', Parent = Some 1, Childs = [3]\<rparr>,
      \<lparr>Kind = NODE_GROUP, Text = '''', Parent = Some 2, Childs = []\<rparr>,
      \<lparr>Kind = NODE_SECTION, Text = s, Parent = Some 0, Childs = []\<rparr>,
      \<lparr>Kind = NODE_TEXT, Text = t, Parent = Some 0, Childs = []\<rparr>],
     root = 0, curr = 0, onAdd = None\<rparr>)"
    by (rule run_section_nested)
qed

theorem section_reset_witness:
  "root (start NewParser) < length (heap (start NewParser)) \<and>
   pos \<lparr>tokens = [NewTokenWithText TOKEN_SECTION ''s'', NewTokenWithText TOKEN_TEXT ''t''],
         level = 0, pos = 0\<rparr>
     < length (tokens \<lparr>tokens = [NewTokenWithText TOKEN_SECTION ''s'',
                                  NewTokenWithText TOKEN_TEXT ''t''], level = 0, pos = 0\<rparr>) \<and>
   TKind (NewTokenWithText TOKEN_SECTION ''s'') = TOKEN_SECTION \<and>
   (\<exists>q. drain (start NewParser)
           \<lparr>tokens = [NewTokenWithText TOKEN_SECTION ''s'', NewTokenWithText TOKEN_TEXT ''t''],
              level = 0, pos = 0\<rparr> = Inr q \<and>
        underRoot (closeAllGroups (start NewParser)) q \<and>
        length (heap (start NewParser)) < length (heap q) \<and>
        Kind (heap q ! length (heap (start NewParser))) = NODE_SECTION \<and>
        Text (heap q ! length (heap (start NewParser))) = ''s'')"
  using section_reset [of "start NewParser"
      "\<lparr>tokens = [NewTokenWithText TOKEN_SECTION ''s'', NewTokenWithText TOKEN_TEXT ''t''],
         level = 0, pos = 0\<rparr>"]
  by (simp add: start_def NewParser_def NewTokenWithText_def)

text \<open>
  C7, as stated, fails on the lines \<open>Section(s)\<close> and \<open>List-item-marker(x)\<close>, both at level
  0: the ListItem node is produced after the Section node, with no indentation increase in
  between, and its parent is the List node at address 2, not the root at address 0.
\<close>

theorem section_reset_counterexample:
  "Parse NewParser
     [NewTokenWithText TOKEN_SECTION ''s'', NewToken TOKEN_EOL,
      NewTokenWithText TOKEN_LISTITEM ''x'', NewToken TOKEN_EOL] =
   Some (Inr \<lparr>heap =
     [\<lparr>Kind = NODE_GROUP, Text = '''', Parent = None, Childs = [1, 2]\<rparr>,
      \<lparr>Kind = NODE_SECTION, Text = ''s'', Parent = Some 0, Childs = []\<rparr>,
      \<lparr>Kind = NODE_LIST, Text = '''', Parent = Some 0, Childs = [3]\<rparr>,
      \<lparr>Kind = NODE_LISTITEM, Text = ''x'', Parent = Some 2, Childs = []\<rparr>],
     root = 0, curr = 3, onAdd = None\<rparr>) \<and>
   Parent ([\<lparr>Kind = NODE_GROUP, Text = '''', Parent = None, Childs = [1, 2]\<rparr>,
      \<lparr>Kind = NODE_SECTION, Text = ''s'', Parent = Some 0, Childs = []\<rparr>,
      \<lparr>Kind = NODE_LIST, Text = '''', Parent = Some 0, Childs = [3]\<rparr>,
      \<lparr>Kind = NODE_LISTITEM, Text = ''x'', Parent = Some 2, Childs = []\<rparr>] ! 3) \<noteq> Some 0 \<and>
   3 \<notin> set (Childs ([\<lparr>Kind = NODE_GROUP, Text = '''', Parent = None, Childs = [1, 2]\<rparr>,
      \<lparr>Kind = NODE_SECTION, Text = ''s'', Parent = Some 0, Childs = []\<rparr>,
      \<lparr>Kind = NODE_LIST, Text = '''', Parent = Some 0, Childs = [3]\<rparr>,
      \<lparr>Kind = NODE_LISTITEM, Text = ''x'', Parent = Some 2, Childs = []\<rparr>] ! 0))"
  by (simp add: run_section_then_item)

section \<open>Space nodes\<close>

lemma spaces_graft: "spaces (graft h c cs nds) = spaces h + spaces nds"
proof -
  have "map Kind (h[c := (h ! c)\<lparr>Childs := Childs (h ! c) @ cs\<rparr>]) = map Kind h"
    by (simp add: map_update list_update_same_conv list_update_beyond not_less
        flip: nth_map split: if_splits)
       (metis length_map list_update_beyond list_update_id map_update nth_map not_le_imp_less)
  then show ?thesis by (simp add: spaces_def graft_def)
qed

lemma addNode_spaces:
  assumes "curr p < length (heap p)" "k \<noteq> NODE_SPACE"
  shows "spaces (heap (fst (addNode p k t))) =
     spaces (heap p) + (if onAdd p \<noteq> None \<and> IsTextNode (nodeOf k t) then 1 else 0)"
  using assms
  by (simp add: addNode_eq spaces_graft del: IsTextNode_nodeOf) (simp add: spaces_def)

lemma drain_spaces:
  assumes "curr p < length (heap p)" "root p < length (heap p)"
  shows "\<exists>q. drain p g = Inr q \<and>
           spaces (heap q) \<le> spaces (heap p) + (if onAdd p = None then 0 else 1)"
  using assms
proof (induction "length (tokens g) - pos g" arbitrary: p g rule: less_induct)
  case less
  show ?case
  proof (cases "pos g < length (tokens g)")
    case False
    then show ?thesis by (simp add: drain_end)
  next
    case True
    have IH: "\<exists>q. drain p' g' = Inr q \<and>
           spaces (heap q) \<le> spaces (heap p') + (if onAdd p' = None then 0 else 1)"
      if "curr p' < length (heap p')" "root p' < length (heap p')"
        "tokens g' = tokens g" "pos g < pos g'" for p' g'
    proof -
      have "length (tokens g') - pos g' < length (tokens g) - pos g"
        using True that(3,4) by simp
      from less.hyps [OF this that(1,2)] show ?thesis .
    qed
    have add: "\<exists>q. drain (fst (addNode p' k t)) g' = Inr q \<and>
           spaces (heap q) \<le> spaces (heap p) + (if onAdd p = None then 0 else 1)"
      if p': "p' = p \<or> p' = closeAllGroups p" and k: "k \<noteq> NODE_SPACE"
        and g': "tokens g' = tokens g" "pos g < pos g'" for p' k t g'
    proof -
      have c: "curr p' < length (heap p')" and h: "heap p' = heap p" "onAdd p' = onAdd p"
        "root p' = root p"
        using p' less.prems by (auto simp: closeAllGroups_def)
      note f = addNode_facts [OF c, of k t]
      let ?p1 = "fst (addNode p' k t)"
      have "curr ?p1 < length (heap ?p1)" "root ?p1 < length (heap ?p1)"
        using f(2,3,5) c h less.prems(2) by (simp_all add: grows_def)
      from IH [OF this g'] obtain q where q: "drain ?p1 g' = Inr q"
        "spaces (heap q) \<le> spaces (heap ?p1)"
        using f(4) by auto
      have "spaces (heap ?p1) \<le> spaces (heap p) + (if onAdd p = None then 0 else 1)"
        using addNode_spaces [OF c k, of t] h by (simp del: IsTextNode_nodeOf)
      then show ?thesis using q by (intro exI [of _ q]) simp
    qed
    have skip: "\<exists>q. drain p (g\<lparr>pos := Suc (pos g)\<rparr>) = Inr q \<and>
           spaces (heap q) \<le> spaces (heap p) + (if onAdd p = None then 0 else 1)"
      using IH [OF less.prems, of "g\<lparr>pos := Suc (pos g)\<rparr>"] by simp
    show ?thesis
      by (cases "TKind (tokens g ! pos g)")
         (simp_all add: drain_step [OF True] add skip del: if_split)
  qed
qed

lemma descend_spaces:
  fixes p :: Parser and k :: NodeKind and t :: "string list"
  assumes "curr p < length (heap p)" "onAdd p = None" "k \<noteq> NODE_SPACE"
  defines "q \<equiv> (let (p1, n) = addNode p k t in p1\<lparr>curr := n\<rparr>)"
  shows "spaces (heap q) = spaces (heap p)" and "onAdd q = None"
    and "curr q < length (heap q)"
  using assms(1-3) unfolding q_def
  by (simp_all add: addNode_eq spaces_graft) (simp add: spaces_def)

lemma addNode_no_space:
  assumes "curr p < length (heap p)" "onAdd p = None" "k \<noteq> NODE_SPACE"
  shows "spaces (heap (fst (addNode p k t))) = spaces (heap p)"
    and "onAdd (fst (addNode p k t)) = None"
  using assms by (simp_all add: addNode_spaces addNode_facts(4))

lemma blockItem_spaces:
  assumes "curr p < length (heap p)" "onAdd p = None" "blockItem p g = Inr (q, g')"
  shows "spaces (heap q) = spaces (heap p) \<and> onAdd q = None"
proof (cases "Are (Tokens g) [TOKEN_BLOCKITEM]")
  case False
  then show ?thesis using assms by (simp add: blockItem_def)
next
  case True
  then have nx: "Next g = (Some (tokens g ! pos g), g\<lparr>pos := pos g + 1\<rparr>)"
    by (simp add: Are_Tokens_one Next_some)
  define p1 where "p1 = (if Kind (heap p ! curr p) \<noteq> NODE_BLOCK
       then (let (p', n) = addNode p NODE_BLOCK [] in p'\<lparr>curr := n\<rparr>) else p)"
  have p1: "spaces (heap p1) = spaces (heap p)" "onAdd p1 = None" "curr p1 < length (heap p1)"
    using descend_spaces [OF assms(1,2), of NODE_BLOCK "[]"] assms(1,2)
    by (auto simp: p1_def)
  have "q = fst (addNode p1 NODE_TEXT [TText (tokens g ! pos g)])"
    using True assms(3) by (simp add: blockItem_def nx p1_def)
  then show ?thesis
    using addNode_no_space [OF p1(3,2), of NODE_TEXT] p1(1) by simp
qed

lemma listItem_spaces:
  assumes "parser_inv p" "onAdd p = None" "listItem p g = Inr (q, g')"
  shows "spaces (heap q) = spaces (heap p) \<and> onAdd q = None"
proof (cases "Are (Tokens g) [TOKEN_LISTITEM]")
  case False
  then show ?thesis using assms by (simp add: listItem_def)
next
  case True
  then have nx: "Next g = (Some (tokens g ! pos g), g\<lparr>pos := pos g + 1\<rparr>)"
    by (simp add: Are_Tokens_one Next_some)
  have c: "curr p < length (heap p)" using assms(1) by (simp add: parser_inv_def)
  obtain p1 where p1: "listContainer p = Inr p1" "parser_wf p1"
    using listContainer_inv [OF assms(1)] by blast
  have s1: "spaces (heap p1) = spaces (heap p) \<and> onAdd p1 = None"
  proof (cases "Kind (heap p ! curr p) = NODE_LISTITEM")
    case True
    then show ?thesis
      using p1(1) assms(2) by (auto simp: listContainer_def split: option.splits)
  next
    case False
    then have "p1 = (let (p', n) = addNode p NODE_LIST [] in p'\<lparr>curr := n\<rparr>)"
      using p1(1) assms(1) by (simp add: listContainer_def parser_inv_def split: NodeKind.splits)
    then show ?thesis
      using descend_spaces [OF c assms(2), of NODE_LIST "[]"] by simp
  qed
  have c1: "curr p1 < length (heap p1)" using p1(2) by (simp add: parser_wf_def)
  have "q = (let (p2, n) = addNode p1 NODE_LISTITEM [TText (tokens g ! pos g)] in p2\<lparr>curr := n\<rparr>)"
    using True assms(3) by (simp add: listItem_def nx p1(1) split_beta)
  then show ?thesis
    using descend_spaces [OF c1, of NODE_LISTITEM "[TText (tokens g ! pos g)]"] s1 by simp
qed

lemma openGroups_spaces:
  "curr p < length (heap p) \<Longrightarrow> onAdd p = None \<Longrightarrow>
     spaces (heap (openGroups n p)) = spaces (heap p) \<and> onAdd (openGroups n p) = None"
proof (induction n arbitrary: p)
  case 0
  then show ?case by simp
next
  case (Suc n)
  note d = descend_spaces [OF Suc.prems, of NODE_GROUP "[]", folded openGroup_def]
  from Suc.IH [OF d(3,2)] d(1) show ?case by simp
qed

lemma levelChange_spaces:
  assumes "parser_inv p" "onAdd p = None" "levelChange d p = Some q"
  shows "spaces (heap q) = spaces (heap p) \<and> onAdd q = None"
proof -
  have c: "curr p < length (heap p)" using assms(1) by (simp add: parser_inv_def)
  obtain c' where "closeGroups (nat (- d)) p = Some (p\<lparr>curr := c'\<rparr>)"
    using closeGroups_inv [OF assms(1)] by blast
  then show ?thesis
    using assms(2,3) openGroups_spaces [OF c assms(2), of "nat d"]
    by (auto simp: levelChange_def split: if_splits)
qed

text \<open>One line of a run adds at most one Space node.\<close>

lemma parseLine_spaces:
  assumes "parser_inv p" "onAdd p = None"
  shows "\<exists>q l'. parseLine i (p, l) g = Some (Inr (q, l')) \<and> parser_inv q \<and> onAdd q = None \<and>
           spaces (heap q) \<le> spaces (heap p) + 1"
proof (cases "length (tokens g) = 0 \<and> i > 0")
  case True
  have r: "root p < length (heap p)"
    using assms(1) tree_inv_root [of "heap p" "root p"] by (simp add: parser_inv_def)
  obtain q l' where q: "parseLine i (p, l) g = Some (Inr (q, l'))" "parser_inv q"
    using parseLine_inv [OF assms(1)] by blast
  then have "spaces (heap q) = spaces (heap p) + spaces [child (root p) (NewNode NODE_BREAK)]"
    "onAdd q = None"
    using True r by (auto simp: empty_line_step spaces_graft)
  then show ?thesis using q by (simp add: spaces_def)
next
  case False
  obtain p1 where 1: "levelChange (int (level g) - int l) p = Some p1" "parser_inv p1"
    using levelChange_inv [OF assms(1)] by blast
  note s1 = levelChange_spaces [OF assms 1(1)]
  have c1: "curr p1 < length (heap p1)" using 1(2) by (simp add: parser_inv_def)
  obtain p2 g2 where 2: "blockItem p1 g = Inr (p2, g2)" "parser_inv p2"
    using blockItem_inv [OF 1(2)] by blast
  note s2 = blockItem_spaces [OF c1 _ 2(1)]
  obtain p3 g3 where 3: "listItem p2 g2 = Inr (p3, g3)" "parser_inv p3"
    using listItem_inv [OF 2(2)] by blast
  note s3 = listItem_spaces [OF 2(2) _ 3(1)]
  have c3: "curr (armHook p3) < length (heap (armHook p3))"
    "root (armHook p3) < length (heap (armHook p3))"
    using 3(2) tree_inv_root [of "heap p3" "root p3"] by (simp_all add: parser_inv_def armHook_def)
  obtain p4 where 4: "drain (armHook p3) g3 = Inr p4"
    "spaces (heap p4) \<le> spaces (heap (armHook p3)) + (if onAdd (armHook p3) = None then 0 else 1)"
    using drain_spaces [OF c3] by blast
  have inv4: "parser_inv p4"
    using drain_inv [of "armHook p3" g3] 3(2) 4(1) by (auto simp: armHook_def)
  have "heap (armHook p3) = heap p3" by (simp add: armHook_def)
  then have le: "spaces (heap p4) \<le> spaces (heap p) + 1"
    using 4(2) s1 s2 s3 by (auto split: if_splits)
  have "parseLine i (p, l) g = Some (Inr (clearHook p4, level g))"
    using False by (auto simp: parseLine_def lineBody_def 1(1) 2(1) 3(1) 4(1))
  moreover have "parser_inv (clearHook p4)" "onAdd (clearHook p4) = None"
    "heap (clearHook p4) = heap p4"
    using inv4 by (simp_all add: clearHook_def)
  ultimately show ?thesis using le by simp
qed

lemma run_bold_then_text:
  "Parse NewParser
     [NewToken TOKEN_STAR, NewTokenWithText TOKEN_TEXT a, NewToken TOKEN_STAR,
      NewTokenWithText TOKEN_TEXT b, NewToken TOKEN_EOL] =
   Some (Inr \<lparr>heap =
     [\<lparr>Kind = NODE_GROUP, Text = '''', Parent = None, Childs = [1, 2]\<rparr>,
      \<lparr>Kind = NODE_TEXTBOLD, Text = a, Parent = Some 0, Childs = []\<rparr>,
      \<lparr>Kind = NODE_TEXT, Text = b, Parent = Some 0, Childs = []\<rparr>],
     root = 0, curr = 0, onAdd = None\<rparr>)"
  by (simp add: parse_eval)

lemma run_text_over_two_lines:
  "Parse NewParser
     [NewTokenWithText TOKEN_TEXT a, NewToken TOKEN_EOL,
      NewTokenWithText TOKEN_TEXT b, NewTokenWithText TOKEN_TEXT c, NewToken TOKEN_EOL] =
   Some (Inr \<lparr>heap =
     [\<lparr>Kind = NODE_GROUP, Text = '''', Parent = None, Childs = [1, 3, 2, 4]\<rparr>,
      \<lparr>Kind = NODE_TEXT, Text = a, Parent = Some 0, Childs = []\<rparr>,
      \<lparr>Kind = NODE_TEXT, Text = b, Parent = Some 0, Childs = []\<rparr>,
      \<lparr>Kind = NODE_SPACE, Text = '''', Parent = Some 0, Childs = []\<rparr>,
      \<lparr>Kind = NODE_TEXT, Text = c, Parent = Some 0, Childs = []\<rparr>],
     root = 0, curr = 0, onAdd = None\<rparr>)"
  by (simp add: parse_eval)

text \<open>
  C1, as stated, fails: for the single line \<open>Bold-delimiter, Text(a), Bold-delimiter,
  Text(b)\<close> and a fresh parser, the children of the root are not TextBold \<open>a\<close>, Space,
  Text \<open>b\<close>.
\<close>

theorem space_between_lines_counterexample:
  "rootChildren
     [NewToken TOKEN_STAR, NewTokenWithText TOKEN_TEXT ''a'', NewToken TOKEN_STAR,
      NewTokenWithText TOKEN_TEXT ''b'', NewToken TOKEN_EOL] \<noteq>
   Some [(NODE_TEXTBOLD, ''a''), (NODE_SPACE, ''''), (NODE_TEXT, ''b'')]"
  by (simp add: rootChildren_def run_bold_then_text childrenOf_def)

lemma Tokens_Cons:
  "pos g < length (tokens g) \<Longrightarrow>
     Tokens g = tokens g ! pos g # Tokens (g\<lparr>pos := pos g + 1\<rparr>)"
  by (simp add: Tokens_eq Cons_nth_drop_Suc)

lemma Tokens_Nil: "length (tokens g) \<le> pos g \<Longrightarrow> Tokens g = []"
  by (simp add: Tokens_eq)

text \<open>
  The loop over the tokens of a line adds a Space node exactly when it starts with the hook
  armed and the first node it adds is a text node; it leaves the hook nil unless it adds no
  node at all.
\<close>

lemma drain_spaces_exact:
  assumes "curr p < length (heap p)" "root p < length (heap p)"
  shows "\<exists>q. drain p g = Inr q \<and>
           spaces (heap q) =
             spaces (heap p) + (if onAdd p \<noteq> None \<and> textKind (firstNode (Tokens g)) then 1 else 0) \<and>
           onAdd q = (if firstNode (Tokens g) = None then onAdd p else None)"
  using assms
proof (induction "length (tokens g) - pos g" arbitrary: p g rule: less_induct)
  case less
  show ?case
  proof (cases "pos g < length (tokens g)")
    case False
    then show ?thesis by (simp add: drain_end Tokens_Nil textKind_def)
  next
    case True
    let ?g1 = "g\<lparr>pos := pos g + 1\<rparr>"
    let ?tok = "tokens g ! pos g"
    have T: "Tokens g = ?tok # Tokens ?g1" by (rule Tokens_Cons [OF True])
    have IH: "\<exists>q. drain p' g' = Inr q \<and>
           spaces (heap q) =
             spaces (heap p') + (if onAdd p' \<noteq> None \<and> textKind (firstNode (Tokens g')) then 1 else 0) \<and>
           onAdd q = (if firstNode (Tokens g') = None then onAdd p' else None)"
      if "curr p' < length (heap p')" "root p' < length (heap p')"
        "tokens g' = tokens g" "pos g < pos g'" for p' g'
    proof -
      have "length (tokens g') - pos g' < length (tokens g) - pos g"
        using True that(3,4) by simp
      from less.hyps [OF this that(1,2)] show ?thesis .
    qed
    have add: "\<exists>q. drain (fst (addNode p' k t)) g' = Inr q \<and>
           spaces (heap q) = spaces (heap p) + (if onAdd p \<noteq> None \<and> textKind (Some k) then 1 else 0) \<and>
           onAdd q = None"
      if p': "p' = p \<or> p' = closeAllGroups p" and k: "k \<noteq> NODE_SPACE"
        and g': "tokens g' = tokens g" "pos g < pos g'" for p' k t g'
    proof -
      have c: "curr p' < length (heap p')" and h: "heap p' = heap p" "onAdd p' = onAdd p"
        "root p' = root p"
        using p' less.prems by (auto simp: closeAllGroups_def)
      note f = addNode_facts [OF c, of k t]
      let ?p1 = "fst (addNode p' k t)"
      have "curr ?p1 < length (heap ?p1)" "root ?p1 < length (heap ?p1)"
        using f(2,3,5) c h less.prems(2) by (simp_all add: grows_def)
      from IH [OF this g'] obtain q where q: "drain ?p1 g' = Inr q"
        "spaces (heap q) = spaces (heap ?p1)" "onAdd q = None"
        using f(4) by auto
      have "spaces (heap ?p1) =
          spaces (heap p) + (if onAdd p \<noteq> None \<and> textKind (Some k) then 1 else 0)"
        using addNode_spaces [OF c k, of t] h by (simp add: textKind_def)
      then show ?thesis using q by (intro exI [of _ q]) simp
    qed
    have skip: "\<exists>q. drain p ?g1 = Inr q \<and>
           spaces (heap q) =
             spaces (heap p) + (if onAdd p \<noteq> None \<and> textKind (firstNode (Tokens ?g1)) then 1 else 0) \<and>
           onAdd q = (if firstNode (Tokens ?g1) = None then onAdd p else None)"
      by (rule IH [OF less.prems]) simp_all
    show ?thesis
    proof (cases "TKind ?tok")
      case TOKEN_SECTION
      then show ?thesis
        using add [of "closeAllGroups p" NODE_SECTION ?g1 "[TText ?tok]"]
        by (simp add: drain_step [OF True] T)
    next
      case TOKEN_TEXT
      then show ?thesis
        using add [of p NODE_TEXT ?g1 "[TText ?tok]"]
        by (simp add: drain_step [OF True] T)
    next
      case TOKEN_STAR
      then show ?thesis
        using add [of p NODE_TEXTBOLD "g\<lparr>pos := pos g + 3\<rparr>" "[TText (tokens g ! (pos g + 1))]"] skip
        by (simp add: drain_step [OF True] T)
    next
      case TOKEN_UNDERLINE
      then show ?thesis
        using add [of p NODE_TEXTUNDERLINE "g\<lparr>pos := pos g + 3\<rparr>" "[TText (tokens g ! (pos g + 1))]"] skip
        by (simp add: drain_step [OF True] T)
    qed (use skip in \<open>simp_all add: drain_step [OF True] T\<close>)
  qed
qed

lemma armHook_facts:
  "heap (armHook p) = heap p" "curr (armHook p) = curr p" "root (armHook p) = root p"
  "onAdd p = None \<Longrightarrow> onAdd (armHook p) \<noteq> None \<longleftrightarrow> IsTextNode (heap p ! lastNode p)"
  by (simp_all add: armHook_def)

text \<open>
  A line adds a Space node exactly when, after its block and list markers are handled, the
  last node below current is a text node and the first node that its remaining tokens add is
  a text node.
\<close>

lemma lineBody_spaces_exact:
  assumes "parser_inv p" "onAdd p = None"
    and b: "blockItem p g = Inr (p1, g1)" and l: "listItem p1 g1 = Inr (p2, g2)"
  shows "\<exists>q. lineBody p g = Inr q \<and> onAdd q = None \<and>
           spaces (heap q) =
             spaces (heap p) +
               (if IsTextNode (heap p2 ! lastNode p2) \<and> textKind (firstNode (Tokens g2))
                then 1 else 0)"
proof -
  have c: "curr p < length (heap p)" using assms(1) by (simp add: parser_inv_def)
  have inv1: "parser_inv p1" using blockItem_inv [OF assms(1), of g] b by auto
  note s1 = blockItem_spaces [OF c assms(2) b]
  have inv2: "parser_inv p2" using listItem_inv [OF inv1, of g1] l by auto
  have s2: "spaces (heap p2) = spaces (heap p1) \<and> onAdd p2 = None"
    using listItem_spaces [OF inv1 _ l] s1 by simp
  have c2: "curr (armHook p2) < length (heap (armHook p2))"
    "root (armHook p2) < length (heap (armHook p2))"
    using inv2 tree_inv_root [of "heap p2" "root p2"]
    by (simp_all add: parser_inv_def armHook_facts)
  obtain q where q: "drain (armHook p2) g2 = Inr q"
    "spaces (heap q) = spaces (heap (armHook p2)) +
       (if onAdd (armHook p2) \<noteq> None \<and> textKind (firstNode (Tokens g2)) then 1 else 0)"
    using drain_spaces_exact [OF c2] by blast
  have "lineBody p g = Inr (clearHook q)" by (simp add: lineBody_def b l q(1))
  moreover have "onAdd (clearHook q) = None" "heap (clearHook q) = heap q"
    by (simp_all add: clearHook_def)
  ultimately show ?thesis
    using q(2) s1 s2 armHook_facts(4) [of p2] by (simp add: armHook_facts(1))
qed

lemma run_one_text:
  "Parse NewParser [NewTokenWithText TOKEN_TEXT a, NewToken TOKEN_EOL] =
   Some (Inr \<lparr>heap =
     [\<lparr>Kind = NODE_GROUP, Text = '''', Parent = None, Childs = [1]\<rparr>,
      \<lparr>Kind = NODE_TEXT, Text = a, Parent = Some 0, Childs = []\<rparr>],
     root = 0, curr = 0, onAdd = None\<rparr>)"
  by (simp add: parse_eval)

lemma run_block_then_text:
  "Parse NewParser
     [NewTokenWithText TOKEN_BLOCKITEM x, NewTokenWithText TOKEN_TEXT y, NewToken TOKEN_EOL] =
   Some (Inr \<lparr>heap =
     [\<lparr>Kind = NODE_GROUP, Text = '''', Parent = None, Childs = [1]\<rparr>,
      \<lparr>Kind = NODE_BLOCK, Text = '''', Parent = Some 0, Childs = [2, 4, 3]\<rparr>,
      \<lparr>Kind = NODE_TEXT, Text = x, Parent = Some 1, Childs = []\<rparr>,
      \<lparr>Kind = NODE_TEXT, Text = y, Parent = Some 1, Childs = []\<rparr>,
      \<lparr>Kind = NODE_SPACE, Text = '''', Parent = Some 1, Childs = []\<rparr>],
     root = 0, curr = 1, onAdd = None\<rparr>)"
  by (simp add: parse_eval)

lemma run_text_then_section:
  "Parse NewParser
     [NewTokenWithText TOKEN_TEXT a, NewToken TOKEN_EOL,
      NewTokenWithText TOKEN_SECTION s, NewTokenWithText TOKEN_TEXT b, NewToken TOKEN_EOL] =
   Some (Inr \<lparr>heap =
     [\<lparr>Kind = NODE_GROUP, Text = '''', Parent = None, Childs = [1, 2, 3]\<rparr>,
      \<lparr>Kind = NODE_TEXT, Text = a, Parent = Some 0, Childs = []\<rparr>,
      \<lparr>Kind = NODE_SECTION, Text = s, Parent = Some 0, Childs = []\<rparr>,
      \<lparr>Kind = NODE_TEXT, Text = b, Parent = Some 0, Childs = []\<rparr>],
     root = 0, curr = 0, onAdd = None\<rparr>)"
  by (simp add: parse_eval)

text \<open>
  C1, as amended: for the single line \<open>Bold-delimiter, Text(a), Bold-delimiter, Text(b)\<close>
  and a fresh parser, the children of the root are TextBold \<open>a\<close> and Text \<open>b\<close>, with no Space
  between them. The mechanism is this. \<open>addNode\<close> with the hook armed clears the hook and,
  exactly when the node it adds is a text node, puts one Space node immediately before that
  node among the children of current; with the hook nil it adds the node alone. A line arms
  the hook once, after its block and list markers are handled, exactly when the last node
  below current (current itself if it has no child) is a text node. So a line adds one Space
  node when that last node and the first node added by its remaining tokens are both text
  nodes, and none otherwise; a line of a run adds at most one Space node, whatever its tokens,
  and ends with the hook nil. The lines \<open>Text(a)\<close> and \<open>Text(b), Text(c)\<close> give Text \<open>a\<close>,
  Space, Text \<open>b\<close>, Text \<open>c\<close>; the single line \<open>Block-item-marker(a), Text(b)\<close> gives a
  Block with Text \<open>a\<close>, Space, Text \<open>b\<close>; the lines \<open>Text(a)\<close> and \<open>Section(c), Text(b)\<close>
  give Text \<open>a\<close>, Section \<open>c\<close>, Text \<open>b\<close> and no Space.
\<close>

theorem space_hook:
  "rootChildren
     [NewToken TOKEN_STAR, NewTokenWithText TOKEN_TEXT a, NewToken TOKEN_STAR,
      NewTokenWithText TOKEN_TEXT b, NewToken TOKEN_EOL] =
   Some [(NODE_TEXTBOLD, a), (NODE_TEXT, b)] \<and>
   (curr pa < length (heap pa) \<longrightarrow>
      addNode pa k t =
        (if onAdd pa \<noteq> None \<and> IsTextNode (nodeOf k t)
         then (pa\<lparr>heap := graft (heap pa) (curr pa)
                              [Suc (length (heap pa)), length (heap pa)]
                              [child (curr pa) (nodeOf k t),
                               child (curr pa) (NewNode NODE_SPACE)],
                   onAdd := None\<rparr>, length (heap pa))
         else (pa\<lparr>heap := graft (heap pa) (curr pa) [length (heap pa)]
                              [child (curr pa) (nodeOf k t)],
                   onAdd := None\<rparr>, length (heap pa)))) \<and>
   (onAdd p = None \<longrightarrow>
      (onAdd (armHook p) \<noteq> None \<longleftrightarrow> IsTextNode (heap p ! lastNode p)) \<and>
      heap (armHook p) = heap p \<and> curr (armHook p) = curr p) \<and>
   (parser_inv p \<and> onAdd p = None \<and> blockItem p g = Inr (p1, g1) \<and>
    listItem p1 g1 = Inr (p2, g2) \<longrightarrow>
      (\<exists>q. lineBody p g = Inr q \<and> onAdd q = None \<and>
           spaces (heap q) =
             spaces (heap p) +
               (if IsTextNode (heap p2 ! lastNode p2) \<and> textKind (firstNode (Tokens g2))
                then 1 else 0))) \<and>
   (parser_inv p \<and> onAdd p = None \<longrightarrow>
      (\<exists>q l'. parseLine i (p, l) g = Some (Inr (q, l')) \<and> parser_inv q \<and> onAdd q = None \<and>
              spaces (heap q) \<le> spaces (heap p) + 1)) \<and>
   rootChildren
     [NewTokenWithText TOKEN_TEXT a, NewToken TOKEN_EOL,
      NewTokenWithText TOKEN_TEXT b, NewTokenWithText TOKEN_TEXT c, NewToken TOKEN_EOL] =
   Some [(NODE_TEXT, a), (NODE_SPACE, ''''), (NODE_TEXT, b), (NODE_TEXT, c)] \<and>
   Parse NewParser
     [NewTokenWithText TOKEN_BLOCKITEM a, NewTokenWithText TOKEN_TEXT b, NewToken TOKEN_EOL] =
   Some (Inr \<lparr>heap =
     [\<lparr>Kind = NODE_GROUP, Text = '''', Parent = None, Childs = [1]\<rparr>,
      \<lparr>Kind = NODE_BLOCK, Text = '''', Parent = Some 0, Childs = [2, 4, 3]\<rparr>,
      \<lparr>Kind = NODE_TEXT, Text = a, Parent = Some 1, Childs = []\<rparr>,
      \<lparr>Kind = NODE_TEXT, Text = b, Parent = Some 1, Childs = []\<rparr>,
      \<lparr>Kind = NODE_SPACE, Text = '''', Parent = Some 1, Childs = []\<rparr>],
     root = 0, curr = 1, onAdd = None\<rparr>) \<and>
   rootChildren
     [NewTokenWithText TOKEN_TEXT a, NewToken TOKEN_EOL,
      NewTokenWithText TOKEN_SECTION c, NewTokenWithText TOKEN_TEXT b, NewToken TOKEN_EOL] =
   Some [(NODE_TEXT, a), (NODE_SECTION, c), (NODE_TEXT, b)]"
proof (intro conjI impI)
  assume "curr pa < length (heap pa)"
  then show "addNode pa k t =
        (if onAdd pa \<noteq> None \<and> IsTextNode (nodeOf k t)
         then (pa\<lparr>heap := graft (heap pa) (curr pa)
                              [Suc (length (heap pa)), length (heap pa)]
                              [child (curr pa) (nodeOf k t),
                               child (curr pa) (NewNode NODE_SPACE)],
                   onAdd := None\<rparr>, length (heap pa))
         else (pa\<lparr>heap := graft (heap pa) (curr pa) [length (heap pa)]
                              [child (curr pa) (nodeOf k t)],
                   onAdd := None\<rparr>, length (heap pa)))"
    by (rule addNode_eq)
next
  assume "parser_inv p \<and> onAdd p = None \<and> blockItem p g = Inr (p1, g1) \<and>
    listItem p1 g1 = Inr (p2, g2)"
  then show "\<exists>q. lineBody p g = Inr q \<and> onAdd q = None \<and>
           spaces (heap q) =
             spaces (heap p) +
               (if IsTextNode (heap p2 ! lastNode p2) \<and> textKind (firstNode (Tokens g2))
                then 1 else 0)"
    by (intro lineBody_spaces_exact [of p g p1 g1 p2 g2]) simp_all
next
  assume "parser_inv p \<and> onAdd p = None"
  then show "\<exists>q l'. parseLine i (p, l) g = Some (Inr (q, l')) \<and> parser_inv q \<and>
      onAdd q = None \<and> spaces (heap q) \<le> spaces (heap p) + 1"
    by (intro parseLine_spaces) simp_all
next
  show "Parse NewParser
     [NewTokenWithText TOKEN_BLOCKITEM a, NewTokenWithText TOKEN_TEXT b, NewToken TOKEN_EOL] =
   Some (Inr \<lparr>heap =
     [\<lparr>Kind = NODE_GROUP, Text = '''', Parent = None, Childs = [1]\<rparr>,
      \<lparr>Kind = NODE_BLOCK, Text = '''', Parent = Some 0, Childs = [2, 4, 3]\<rparr>,
      \<lparr>Kind = NODE_TEXT, Text = a, Parent = Some 1, Childs = []\<rparr>,
      \<lparr>Kind = NODE_TEXT, Text = b, Parent = Some 1, Childs = []\<rparr>,
      \<lparr>Kind = NODE_SPACE, Text = '''', Parent = Some 1, Childs = []\<rparr>],
     root = 0, curr = 1, onAdd = None\<rparr>)"
    by (rule run_block_then_text)
qed (simp_all add: rootChildren_def run_bold_then_text run_text_over_two_lines
      run_text_then_section childrenOf_def armHook_def)

theorem space_hook_witness:
  "curr \<lparr>heap = [\<lparr>Kind = NODE_GROUP, Text = '''', Parent = None, Childs = [1]\<rparr>,
                 \<lparr>Kind = NODE_TEXT, Text = ''a'', Parent = Some 0, Childs = []\<rparr>],
         root = 0, curr = 0, onAdd = Some SpaceBeforeText\<rparr> < 2 \<and>
   addNode \<lparr>heap = [\<lparr>Kind = NODE_GROUP, Text = '''', Parent = None, Childs = [1]\<rparr>,
                    \<lparr>Kind = NODE_TEXT, Text = ''a'', Parent = Some 0, Childs = []\<rparr>],
            root = 0, curr = 0, onAdd = Some SpaceBeforeText\<rparr> NODE_TEXT [''b''] =
     (\<lparr>heap = [\<lparr>Kind = NODE_GROUP, Text = '''', Parent = None, Childs = [1, 3, 2]\<rparr>,
              \<lparr>Kind = NODE_TEXT, Text = ''a'', Parent = Some 0, Childs = []\<rparr>,
              \<lparr>Kind = NODE_TEXT, Text = ''b'', Parent = Some 0, Childs = []\<rparr>,
              \<lparr>Kind = NODE_SPACE, Text = '''', Parent = Some 0, Childs = []\<rparr>],
       root = 0, curr = 0, onAdd = None\<rparr>, 2) \<and>
   parser_inv \<lparr>heap = [\<lparr>Kind = NODE_GROUP, Text = '''', Parent = None, Childs = [1]\<rparr>,
                       \<lparr>Kind = NODE_TEXT, Text = ''a'', Parent = Some 0, Childs = []\<rparr>],
               root = 0, curr = 0, onAdd = None\<rparr> \<and>
   blockItem \<lparr>heap = [\<lparr>Kind = NODE_GROUP, Text = '''', Parent = None, Childs = [1]\<rparr>,
                      \<lparr>Kind = NODE_TEXT, Text = ''a'', Parent = Some 0, Childs = []\<rparr>],
              root = 0, curr = 0, onAdd = None\<rparr>
     \<lparr>tokens = [NewTokenWithText TOKEN_TEXT ''b'', NewTokenWithText TOKEN_TEXT ''c''],
        level = 0, pos = 0\<rparr> =
     Inr (\<lparr>heap = [\<lparr>Kind = NODE_GROUP, Text = '''', Parent = None, Childs = [1]\<rparr>,
                  \<lparr>Kind = NODE_TEXT, Text = ''a'', Parent = Some 0, Childs = []\<rparr>],
           root = 0, curr = 0, onAdd = None\<rparr>,
          \<lparr>tokens = [NewTokenWithText TOKEN_TEXT ''b'', NewTokenWithText TOKEN_TEXT ''c''],
             level = 0, pos = 0\<rparr>) \<and>
   listItem \<lparr>heap = [\<lparr>Kind = NODE_GROUP, Text = '''', Parent = None, Childs = [1]\<rparr>,
                     \<lparr>Kind = NODE_TEXT, Text = ''a'', Parent = Some 0, Childs = []\<rparr>],
             root = 0, curr = 0, onAdd = None\<rparr>
     \<lparr>tokens = [NewTokenWithText TOKEN_TEXT ''b'', NewTokenWithText TOKEN_TEXT ''c''],
        level = 0, pos = 0\<rparr> =
     Inr (\<lparr>heap = [\<lparr>Kind = NODE_GROUP, Text = '''', Parent = None, Childs = [1]\<rparr>,
                  \<lparr>Kind = NODE_TEXT, Text = ''a'', Parent = Some 0, Childs = []\<rparr>],
           root = 0, curr = 0, onAdd = None\<rparr>,
          \<lparr>tokens = [NewTokenWithText TOKEN_TEXT ''b'', NewTokenWithText TOKEN_TEXT ''c''],
             level = 0, pos = 0\<rparr>) \<and>
   onAdd (armHook \<lparr>heap = [\<lparr>Kind = NODE_GROUP, Text = '''', Parent = None, Childs = [1]\<rparr>,
                             \<lparr>Kind = NODE_TEXT, Text = ''a'', Parent = Some 0, Childs = []\<rparr>],
                     root = 0, curr = 0, onAdd = None\<rparr>) = Some SpaceBeforeText \<and>
   (\<exists>q. lineBody \<lparr>heap = [\<lparr>Kind = NODE_GROUP, Text = '''', Parent = None, Childs = [1]\<rparr>,
                           \<lparr>Kind = NODE_TEXT, Text = ''a'', Parent = Some 0, Childs = []\<rparr>],
                   root = 0, curr = 0, onAdd = None\<rparr>
          \<lparr>tokens = [NewTokenWithText TOKEN_TEXT ''b'', NewTokenWithText TOKEN_TEXT ''c''],
             level = 0, pos = 0\<rparr> = Inr q \<and>
        onAdd q = None \<and> spaces (heap q) = 1) \<and>
   (\<exists>q l'. parseLine 1
             (\<lparr>heap = [\<lparr>Kind = NODE_GROUP, Text = '''', Parent = None, Childs = [1]\<rparr>,
                       \<lparr>Kind = NODE_TEXT, Text = ''a'', Parent = Some 0, Childs = []\<rparr>],
                root = 0, curr = 0, onAdd = None\<rparr>, 0)
             \<lparr>tokens = [NewTokenWithText TOKEN_TEXT ''b'', NewTokenWithText TOKEN_TEXT ''c''],
                level = 0, pos = 0\<rparr> = Some (Inr (q, l')) \<and>
           parser_inv q \<and> onAdd q = None \<and> spaces (heap q) \<le> 1)"
proof -
  let ?P = "\<lparr>heap = [\<lparr>Kind = NODE_GROUP, Text = '''', Parent = None, Childs = [1]\<rparr>,
                     \<lparr>Kind = NODE_TEXT, Text = ''a'', Parent = Some 0, Childs = []\<rparr>],
             root = 0, curr = 0, onAdd = None\<rparr>"
  let ?G = "\<lparr>tokens = [NewTokenWithText TOKEN_TEXT ''b'', NewTokenWithText TOKEN_TEXT ''c''],
              level = 0, pos = 0\<rparr>"
  have inv: "parser_inv ?P"
    by (rule Parse_inv(1) [OF run_one_text [of "''a''"]])
  have b: "blockItem ?P ?G = Inr (?P, ?G)" and l: "listItem ?P ?G = Inr (?P, ?G)"
    by (simp_all add: blockItem_def listItem_def Tokens_eq NewTokenWithText_def)
  have s: "spaces (heap ?P) = 0" "IsTextNode (heap ?P ! lastNode ?P)"
    "textKind (firstNode (Tokens ?G))"
    by (simp_all add: spaces_def lastNode_def IsTextNode_def Tokens_eq textKind_def
        NewTokenWithText_def)
  show ?thesis
    using space_hook [where pa = "?P\<lparr>onAdd := Some SpaceBeforeText\<rparr>" and k = NODE_TEXT
        and t = "[''b'']" and p = ?P and g = ?G and ?p1.0 = ?P and ?g1.0 = ?G and ?p2.0 = ?P
        and ?g2.0 = ?G and i = 1 and l = 0] inv b l s
    by (simp add: graft_def child_def nodeOf_def NewNode_def NewNodeWithText_def IsTextNode_def
        armHook_def lastNode_def)
qed

section \<open>Indentation: opening and closing groups\<close>

lemma groupDepth_range: "groupDepth h c a n \<Longrightarrow> a < length h \<and> c < length h"
  by (induction rule: groupDepth.induct) simp_all

lemma groupDepth_zero: "groupDepth h c a n \<Longrightarrow> (n = 0 \<longleftrightarrow> a = c)"
  by (induction rule: groupDepth.induct) simp_all

lemma groupDepth_grows:
  assumes "groupDepth (heap p) c a n" "grows p q"
  shows "groupDepth (heap q) c a n"
  using assms(1)
proof (induction rule: groupDepth.induct)
  case here
  have "c < length (heap q)" using here grows_length [OF assms(2)] by simp
  then show ?case by (rule groupDepth.here)
next
  case (group a b n)
  have 1: "a < length (heap q)" using group(1) grows_length [OF assms(2)] by simp
  have 2: "Parent (heap q ! a) = Some b" and 3: "Kind (heap q ! a) = NODE_GROUP"
    using grows_kind [OF assms(2) group(1)] group(3,5) by simp_all
  show ?case by (rule groupDepth.group [OF 1 group(2) 2 group.IH 3])
next
  case (inside a b n)
  have 1: "a < length (heap q)" using inside(1) grows_length [OF assms(2)] by simp
  have 2: "Parent (heap q ! a) = Some b" and 3: "Kind (heap q ! a) \<noteq> NODE_GROUP"
    using grows_kind [OF assms(2) inside(1)] inside(3,5) by simp_all
  show ?case by (rule groupDepth.inside [OF 1 inside(2) 2 inside.IH 3 inside(6)])
qed

lemma groupDepth_parent:
  assumes "groupDepth h c a n" "a \<noteq> c"
  shows "\<exists>b m. Parent (h ! a) = Some b \<and> groupDepth h c b m \<and>
           n = (if Kind (h ! a) = NODE_GROUP then Suc m else m)"
  using assms by (cases rule: groupDepth.cases) auto

text \<open>
  Below \<open>c\<close>, closing a group goes one level up: the walk passes the lists, items and
  blocks inside the innermost group and stops at that group, whose parent becomes current.
\<close>

lemma closeGroupLoop_depth:
  "groupDepth h c a m \<Longrightarrow> heap p = h \<Longrightarrow> curr p = a \<Longrightarrow> m = Suc n \<Longrightarrow>
     \<exists>g b. closeGroupLoop p = Some (p\<lparr>curr := g\<rparr>) \<and> Parent (h ! g) = Some b \<and>
           groupDepth h c b n"
proof (induction arbitrary: p rule: groupDepth.induct)
  case here
  then show ?case by simp
next
  case (group a b k)
  have "closeGroupLoop p = Some (p\<lparr>curr := a\<rparr>)"
    using group by (subst closeGroupLoop.simps) simp
  then show ?case using group by (intro exI [of _ a] exI [of _ b]) simp
next
  case (inside a b k)
  have "closeGroupLoop p = closeGroupLoop (p\<lparr>curr := b\<rparr>)"
    using inside by (subst closeGroupLoop.simps) simp
  moreover obtain g b' where "closeGroupLoop (p\<lparr>curr := b\<rparr>) = Some (p\<lparr>curr := b, curr := g\<rparr>)"
    "Parent (h ! g) = Some b'" "groupDepth h c b' n"
    using inside.IH [of "p\<lparr>curr := b\<rparr>"] inside.prems by auto
  ultimately show ?case by (intro exI [of _ g] exI [of _ b']) simp
qed

lemma closeGroup_depth:
  assumes "groupDepth (heap p) c (curr p) (Suc n)"
  shows "\<exists>b. closeGroup p = Some (p\<lparr>curr := b\<rparr>) \<and> groupDepth (heap p) c b n"
proof -
  obtain g b where "closeGroupLoop p = Some (p\<lparr>curr := g\<rparr>)" "Parent (heap p ! g) = Some b"
    "groupDepth (heap p) c b n"
    using closeGroupLoop_depth [OF assms] by blast
  then show ?thesis by (intro exI [of _ b]) (simp add: closeGroup_def)
qed

lemma closeGroups_depth:
  "groupDepth (heap p) c (curr p) (n + k) \<Longrightarrow>
     \<exists>b. closeGroups k p = Some (p\<lparr>curr := b\<rparr>) \<and> groupDepth (heap p) c b n"
proof (induction k arbitrary: p)
  case 0
  have "p\<lparr>curr := curr p\<rparr> = p" by simp
  then show ?case using 0 by (intro exI [of _ "curr p"]) simp
next
  case (Suc k)
  then have "groupDepth (heap p) c (curr p) (Suc (n + k))" by simp
  then obtain b where b: "closeGroup p = Some (p\<lparr>curr := b\<rparr>)" "groupDepth (heap p) c b (n + k)"
    using closeGroup_depth by blast
  from Suc.IH [of "p\<lparr>curr := b\<rparr>"] b(2) show ?case by (simp add: b(1))
qed

lemma descend_depth:
  fixes p :: Parser and k :: NodeKind and t :: "string list"
  assumes wf: "parser_wf p"
    and k: "Kind (heap p ! curr p) = NODE_LIST \<longleftrightarrow> k = NODE_LISTITEM"
    and d: "groupDepth (heap p) c (curr p) n"
    and ok: "0 < n \<or> k = NODE_GROUP"
  defines "q \<equiv> (let (p1, m) = addNode p k t in p1\<lparr>curr := m\<rparr>)"
  shows "groupDepth (heap q) c (curr q) (if k = NODE_GROUP then Suc n else n)"
proof -
  note f = descend_inv [OF wf k, of t, folded q_def]
  have 1: "curr q < length (heap q)" using f(1) by (simp add: parser_wf_def)
  have "c < length (heap p)" using groupDepth_range [OF d] by simp
  then have 2: "curr q \<noteq> c" using f(4) by simp
  have 3: "groupDepth (heap q) c (curr p) n" by (rule groupDepth_grows [OF d f(2)])
  show ?thesis
  proof (cases "k = NODE_GROUP")
    case True
    have "Kind (heap q ! curr q) = NODE_GROUP" using f(3) True by simp
    from groupDepth.group [OF 1 2 f(5) 3 this] show ?thesis using True by simp
  next
    case False
    then have "0 < n" using ok by simp
    then have 4: "curr p \<noteq> c" using groupDepth_zero [OF d] by auto
    have "Kind (heap q ! curr q) \<noteq> NODE_GROUP" using f(3) False by simp
    from groupDepth.inside [OF 1 2 f(5) 3 this 4] show ?thesis using False by simp
  qed
qed

lemma openGroups_depth:
  "parser_inv p \<Longrightarrow> groupDepth (heap p) c (curr p) d \<Longrightarrow>
     groupDepth (heap (openGroups n p)) c (curr (openGroups n p)) (d + n)"
proof (induction n arbitrary: p d)
  case 0
  then show ?case by simp
next
  case (Suc n)
  have wf: "parser_wf p"
    and k: "Kind (heap p ! curr p) = NODE_LIST \<longleftrightarrow> NODE_GROUP = NODE_LISTITEM"
    using Suc.prems(1) by (simp_all add: parser_inv_def parser_wf_def)
  have "groupDepth (heap (openGroup p)) c (curr (openGroup p)) (Suc d)"
    using descend_depth [OF wf k Suc.prems(2), of "[]"] by (simp add: openGroup_def)
  from Suc.IH [OF openGroup_inv(1) [OF Suc.prems(1)] this] show ?case by simp
qed

lemma levelChange_depth:
  assumes inv: "parser_inv p" and d: "groupDepth (heap p) c (curr p) d"
    and nn: "0 \<le> int d + diff"
  shows "\<exists>q. levelChange diff p = Some q \<and> parser_inv q \<and> grows p q \<and>
           groupDepth (heap q) c (curr q) (nat (int d + diff))"
proof (cases "0 \<le> diff")
  case True
  have "groupDepth (heap (openGroups (nat diff) p)) c (curr (openGroups (nat diff) p))
      (d + nat diff)"
    by (rule openGroups_depth [OF inv d])
  moreover have "d + nat diff = nat (int d + diff)" using True by simp
  ultimately show ?thesis
    using True openGroups_inv [OF inv, of "nat diff"] inv d
    by (cases "diff = 0") (simp_all add: levelChange_def)
next
  case False
  let ?k = "nat (- diff)" and ?n = "nat (int d + diff)"
  have "d = ?n + ?k" using False nn by simp
  then have "groupDepth (heap p) c (curr p) (?n + ?k)" using d by simp
  then obtain b where b: "closeGroups ?k p = Some (p\<lparr>curr := b\<rparr>)"
    "groupDepth (heap p) c b ?n"
    using closeGroups_depth by blast
  obtain c' where c': "closeGroups ?k p = Some (p\<lparr>curr := c'\<rparr>)" "parser_inv (p\<lparr>curr := c'\<rparr>)"
    using closeGroups_inv [OF inv] by blast
  have "curr (p\<lparr>curr := b\<rparr>) = curr (p\<lparr>curr := c'\<rparr>)" using b(1) c'(1) by simp
  then have "b = c'" by simp
  then show ?thesis
    using False b c' by (intro exI [of _ "p\<lparr>curr := b\<rparr>"]) (simp add: levelChange_def)
qed

lemma addNode_depth:
  assumes "curr p < length (heap p)" "groupDepth (heap p) c (curr p) d"
  shows "groupDepth (heap (fst (addNode p k t))) c (curr (fst (addNode p k t))) d"
  using groupDepth_grows [OF assms(2) addNode_facts(2) [OF assms(1), of k t]]
    addNode_facts(3) [OF assms(1), of k t]
  by simp

lemma blockItem_depth:
  assumes inv: "parser_inv p" and d: "groupDepth (heap p) c (curr p) d" "0 < d"
    and b: "blockItem p g = Inr (q, g')"
  shows "groupDepth (heap q) c (curr q) d"
proof (cases "Are (Tokens g) [TOKEN_BLOCKITEM]")
  case False
  then show ?thesis using b d by (simp add: blockItem_def)
next
  case True
  then have nx: "Next g = (Some (tokens g ! pos g), g\<lparr>pos := pos g + 1\<rparr>)"
    by (simp add: Are_Tokens_one Next_some)
  have wf: "parser_wf p" and nl: "Kind (heap p ! curr p) \<noteq> NODE_LIST"
    using inv by (simp_all add: parser_inv_def parser_wf_def)
  define p1 where "p1 = (if Kind (heap p ! curr p) \<noteq> NODE_BLOCK
       then (let (p', n) = addNode p NODE_BLOCK [] in p'\<lparr>curr := n\<rparr>) else p)"
  have k: "Kind (heap p ! curr p) = NODE_LIST \<longleftrightarrow> NODE_BLOCK = NODE_LISTITEM"
    using nl by simp
  have p1: "groupDepth (heap p1) c (curr p1) d" "parser_wf p1"
    using descend_depth [OF wf k d(1), of "[]"] descend_inv(1) [OF wf k, of "[]"] d wf
    by (auto simp: p1_def)
  have c1: "curr p1 < length (heap p1)" using p1(2) by (simp add: parser_wf_def)
  have "q = fst (addNode p1 NODE_TEXT [TText (tokens g ! pos g)])"
    using True b by (simp add: blockItem_def nx p1_def)
  then show ?thesis using addNode_depth [OF c1 p1(1)] by simp
qed

lemma listItem_depth:
  assumes inv: "parser_inv p" and d: "groupDepth (heap p) c (curr p) d" "0 < d"
    and l: "listItem p g = Inr (q, g')"
  shows "groupDepth (heap q) c (curr q) d"
proof (cases "Are (Tokens g) [TOKEN_LISTITEM]")
  case False
  then show ?thesis using l d by (simp add: listItem_def)
next
  case True
  then have nx: "Next g = (Some (tokens g ! pos g), g\<lparr>pos := pos g + 1\<rparr>)"
    by (simp add: Are_Tokens_one Next_some)
  have wf: "parser_wf p" and nl: "Kind (heap p ! curr p) \<noteq> NODE_LIST"
    using inv by (simp_all add: parser_inv_def parser_wf_def)
  obtain p1 where p1: "listContainer p = Inr p1" "parser_wf p1"
    "Kind (heap p1 ! curr p1) = NODE_LIST"
    using listContainer_inv [OF inv] by blast
  have d1: "groupDepth (heap p1) c (curr p1) d"
  proof (cases "Kind (heap p ! curr p) = NODE_LISTITEM")
    case True
    have "curr p \<noteq> c" using groupDepth_zero [OF d(1)] d(2) by auto
    then obtain b m where b: "Parent (heap p ! curr p) = Some b" "groupDepth (heap p) c b m"
      "d = (if Kind (heap p ! curr p) = NODE_GROUP then Suc m else m)"
      using groupDepth_parent [OF d(1)] by blast
    then have "p1 = p\<lparr>curr := b\<rparr>" "m = d"
      using True p1(1) by (simp_all add: listContainer_def)
    then show ?thesis using b(2) by simp
  next
    case False
    have k: "Kind (heap p ! curr p) = NODE_LIST \<longleftrightarrow> NODE_LIST = NODE_LISTITEM"
      using nl by simp
    have "p1 = (let (p', n) = addNode p NODE_LIST [] in p'\<lparr>curr := n\<rparr>)"
      using False nl p1(1) by (simp add: listContainer_def split: NodeKind.splits)
    then show ?thesis using descend_depth [OF wf k d(1), of "[]"] d(2) by simp
  qed
  have k1: "Kind (heap p1 ! curr p1) = NODE_LIST \<longleftrightarrow> NODE_LISTITEM = NODE_LISTITEM"
    using p1(3) by simp
  have "q = (let (p2, n) = addNode p1 NODE_LISTITEM [TText (tokens g ! pos g)] in p2\<lparr>curr := n\<rparr>)"
    using True l by (simp add: listItem_def nx p1(1) split_beta)
  then show ?thesis
    using descend_depth [OF p1(2) k1 d1, of "[TText (tokens g ! pos g)]"] d(2) by simp
qed

text \<open>Without a Section token, the loop over the tokens of a line leaves current alone.\<close>

lemma drain_keeps_curr:
  assumes "curr p < length (heap p)" "TOKEN_SECTION \<notin> TKind ` set (tokens g)"
  shows "\<exists>q. drain p g = Inr q \<and> curr q = curr p \<and> grows p q"
  using assms
proof (induction "length (tokens g) - pos g" arbitrary: p g rule: less_induct)
  case less
  show ?case
  proof (cases "pos g < length (tokens g)")
    case False
    then show ?thesis by (simp add: drain_end)
  next
    case True
    have ns: "TKind (tokens g ! pos g) \<noteq> TOKEN_SECTION"
      using less.prems(2) True by (metis image_eqI nth_mem)
    have IH: "\<exists>q. drain p' g' = Inr q \<and> curr q = curr p \<and> grows p q"
      if "curr p' = curr p" "grows p p'" "tokens g' = tokens g" "pos g < pos g'" for p' g'
    proof -
      have "length (tokens g') - pos g' < length (tokens g) - pos g"
        using True that(3,4) by simp
      moreover have "curr p' < length (heap p')"
        using that(1,2) less.prems(1) by (simp add: grows_def)
      moreover have "TOKEN_SECTION \<notin> TKind ` set (tokens g')"
        using less.prems(2) that(3) by simp
      ultimately obtain q where "drain p' g' = Inr q" "curr q = curr p'" "grows p' q"
        using less.hyps by blast
      then show ?thesis using that(1,2) by (auto intro: grows_trans)
    qed
    have add: "curr (fst (addNode p k t)) = curr p" "grows p (fst (addNode p k t))" for k t
      using addNode_facts(2,3) [OF less.prems(1)] by simp_all
    show ?thesis
      using ns
      by (cases "TKind (tokens g ! pos g)")
         (simp_all add: drain_step [OF True] IH add)
  qed
qed

lemma lineBody_depth:
  assumes inv: "parser_inv p" and d: "groupDepth (heap p) c (curr p) d" "0 < d"
    and ns: "TOKEN_SECTION \<notin> TKind ` set (tokens g)"
  shows "\<exists>q. lineBody p g = Inr q \<and> parser_inv q \<and> grows p q \<and>
           groupDepth (heap q) c (curr q) d"
proof -
  obtain p1 g1 where 1: "blockItem p g = Inr (p1, g1)" "parser_inv p1" "grows p p1"
    "tokens g1 = tokens g"
    using blockItem_inv [OF inv] by blast
  note d1 = blockItem_depth [OF inv d 1(1)]
  obtain p2 g2 where 2: "listItem p1 g1 = Inr (p2, g2)" "parser_inv p2" "grows p1 p2"
    "tokens g2 = tokens g1"
    using listItem_inv [OF 1(2)] by blast
  note d2 = listItem_depth [OF 1(2) d1 d(2) 2(1)]
  have c2: "curr (armHook p2) < length (heap (armHook p2))"
    using 2(2) by (simp add: parser_inv_def armHook_facts)
  have "TOKEN_SECTION \<notin> TKind ` set (tokens g2)" using ns 1(4) 2(4) by simp
  from drain_keeps_curr [OF c2 this]
  obtain p3 where dr: "drain (armHook p2) g2 = Inr p3" "curr p3 = curr (armHook p2)"
    "grows (armHook p2) p3"
    by blast
  have 3: "drain (armHook p2) g2 = Inr p3" "curr p3 = curr p2" "grows p2 p3"
    using dr by (simp_all add: armHook_facts grows_def)
  have inv3: "parser_inv p3"
    using drain_inv [of "armHook p2" g2] 2(2) 3(1) by (auto simp: armHook_def)
  have "groupDepth (heap p3) c (curr p3) d"
    using groupDepth_grows [OF d2 3(3)] 3(2) by simp
  moreover have "lineBody p g = Inr (clearHook p3)"
    by (simp add: lineBody_def 1(1) 2(1) 3(1))
  moreover have "heap (clearHook p3) = heap p3" "curr (clearHook p3) = curr p3"
    "parser_inv (clearHook p3)" "grows p3 (clearHook p3)"
    using inv3 by (simp_all add: clearHook_def)
  moreover have "grows p p3" using 1(3) 2(3) 3(3) by (blast intro: grows_trans)
  ultimately show ?thesis
    by (intro exI [of _ "clearHook p3"]) (auto intro: grows_trans)
qed

lemma parseLine_depth:
  assumes inv: "parser_inv p" and d: "groupDepth (heap p) c (curr p) (L - l0)" "l0 \<le> L"
    and g: "l0 < level g" "tokens g \<noteq> []" "TOKEN_SECTION \<notin> TKind ` set (tokens g)"
  shows "\<exists>q. parseLine i (p, L) g = Some (Inr (q, level g)) \<and> parser_inv q \<and> grows p q \<and>
           groupDepth (heap q) c (curr q) (level g - l0)"
proof -
  have nn: "0 \<le> int (L - l0) + (int (level g) - int L)" using d(2) g(1) by simp
  obtain p1 where 1: "levelChange (int (level g) - int L) p = Some p1" "parser_inv p1"
    "grows p p1"
    "groupDepth (heap p1) c (curr p1) (nat (int (L - l0) + (int (level g) - int L)))"
    using levelChange_depth [OF inv d(1) nn] by blast
  have e: "nat (int (L - l0) + (int (level g) - int L)) = level g - l0"
    using d(2) g(1) by simp
  have "0 < level g - l0" using g(1) by simp
  from lineBody_depth [OF 1(2) 1(4) [unfolded e] this g(3)]
  obtain q where q: "lineBody p1 g = Inr q" "parser_inv q" "grows p1 q"
    "groupDepth (heap q) c (curr q) (level g - l0)"
    by blast
  have "parseLine i (p, L) g = Some (Inr (q, level g))"
    using g(2) by (simp add: parseLine_def 1(1) q(1))
  then show ?thesis using q(2,4) grows_trans [OF 1(3) q(3)] by simp
qed

lemma parseGroups_depth:
  assumes "parser_inv p" "groupDepth (heap p) c (curr p) (L - l0)" "l0 \<le> L"
    and "\<forall>g \<in> set gs. l0 < level g \<and> tokens g \<noteq> [] \<and> TOKEN_SECTION \<notin> TKind ` set (tokens g)"
  shows "\<exists>q L'. parseGroups i gs (p, L) = Some (Inr (q, L')) \<and> parser_inv q \<and> grows p q \<and>
           groupDepth (heap q) c (curr q) (L' - l0) \<and> l0 \<le> L' \<and> (gs \<noteq> [] \<longrightarrow> l0 < L')"
  using assms
proof (induction gs arbitrary: i p L)
  case Nil
  then show ?case by simp
next
  case (Cons g gs)
  have g: "l0 < level g" "tokens g \<noteq> []" "TOKEN_SECTION \<notin> TKind ` set (tokens g)"
    using Cons.prems(4) by simp_all
  obtain p1 where 1: "parseLine i (p, L) g = Some (Inr (p1, level g))" "parser_inv p1"
    "grows p p1" "groupDepth (heap p1) c (curr p1) (level g - l0)"
    using parseLine_depth [OF Cons.prems(1,2,3) g] by blast
  have rest: "\<forall>g \<in> set gs. l0 < level g \<and> tokens g \<noteq> [] \<and>
      TOKEN_SECTION \<notin> TKind ` set (tokens g)"
    using Cons.prems(4) by simp
  have le: "l0 \<le> level g" using g(1) by simp
  obtain q L' where q: "parseGroups (Suc i) gs (p1, level g) = Some (Inr (q, L'))"
    "parser_inv q" "grows p1 q" "groupDepth (heap q) c (curr q) (L' - l0)" "l0 \<le> L'"
    "gs \<noteq> [] \<longrightarrow> l0 < L'"
    using Cons.IH [OF 1(2,4) le rest] by blast
  have "l0 < L'"
  proof (cases "gs = []")
    case True
    then show ?thesis using q(1) g(1) by simp
  next
    case False
    then show ?thesis using q(6) by simp
  qed
  then show ?case
    using 1(1) q(1,2,4,5) grows_trans [OF 1(3) q(3)] by simp
qed

text \<open>
  Opening \<open>k\<close> groups appends \<open>k\<close> group nodes, the first below current, each next one
  below the one before, and descends into the last.
\<close>

lemma openGroups_chain:
  "curr p < length (heap p) \<Longrightarrow>
     length (heap (openGroups k p)) = length (heap p) + k \<and>
     grows p (openGroups k p) \<and>
     curr (openGroups k p) = (if k = 0 then curr p else length (heap p) + k - 1) \<and>
     (\<forall>j < k. Kind (heap (openGroups k p) ! (length (heap p) + j)) = NODE_GROUP \<and>
        Parent (heap (openGroups k p) ! (length (heap p) + j)) =
          Some (if j = 0 then curr p else length (heap p) + j - 1))"
proof (induction k arbitrary: p)
  case 0
  then show ?case by simp
next
  case (Suc k)
  let ?n = "length (heap p)"
  let ?p1 = "openGroup p"
  have p1: "heap ?p1 = graft (heap p) (curr p) [?n] [child (curr p) (NewNode NODE_GROUP)]"
    "curr ?p1 = ?n"
    using Suc.prems by (simp_all add: openGroup_def addNode_eq) (simp add: nodeOf_def)
  have g1: "grows p ?p1"
    using openGroup_def addNode_facts(2) [OF Suc.prems, of NODE_GROUP "[]"]
    by (simp add: split_beta)
  have c1: "curr ?p1 < length (heap ?p1)" by (simp add: p1)
  note IH = Suc.IH [OF c1]
  have len: "length (heap ?p1) = Suc ?n" by (simp add: p1)
  have new: "Kind (heap ?p1 ! ?n) = NODE_GROUP" "Parent (heap ?p1 ! ?n) = Some (curr p)"
    by (simp_all add: p1(1) graft_new)
  have g2: "grows ?p1 (openGroups k ?p1)" using IH by simp
  have keep: "Kind (heap (openGroups k ?p1) ! ?n) = NODE_GROUP"
    "Parent (heap (openGroups k ?p1) ! ?n) = Some (curr p)"
    using grows_kind [OF g2, of ?n] new len by simp_all
  have "Kind (heap (openGroups k ?p1) ! (?n + j)) = NODE_GROUP \<and>
        Parent (heap (openGroups k ?p1) ! (?n + j)) = Some (if j = 0 then curr p else ?n + j - 1)"
    if "j < Suc k" for j
  proof (cases j)
    case 0
    then show ?thesis using keep by simp
  next
    case (Suc j')
    then have "j' < k" using that by simp
    then have "Kind (heap (openGroups k ?p1) ! (Suc ?n + j')) = NODE_GROUP \<and>
        Parent (heap (openGroups k ?p1) ! (Suc ?n + j')) =
          Some (if j' = 0 then ?n else Suc ?n + j' - 1)"
      using IH by (simp add: len p1(2))
    then show ?thesis using Suc by (cases j') simp_all
  qed
  moreover have "length (heap (openGroups k ?p1)) = ?n + Suc k" using IH by (simp add: len)
  moreover have "curr (openGroups k ?p1) = ?n + Suc k - 1"
    using IH by (cases k) (simp_all add: len p1(2))
  moreover have "grows p (openGroups k ?p1)" by (rule grows_trans [OF g1 g2])
  ultimately show ?case by simp
qed

lemma parseGroups_lastLevel:
  "gs \<noteq> [] \<Longrightarrow> \<forall>g \<in> set gs. tokens g \<noteq> [] \<Longrightarrow>
     parseGroups i gs (p, L) = Some (Inr (q, L')) \<Longrightarrow> L' = level (last gs)"
proof (induction gs arbitrary: i p L)
  case Nil
  then show ?case by simp
next
  case (Cons g gs)
  obtain p1 L1 where 1: "parseLine i (p, L) g = Some (Inr (p1, L1))"
    "parseGroups (Suc i) gs (p1, L1) = Some (Inr (q, L'))"
    using Cons.prems(3) by (auto split: option.splits sum.splits)
  have "tokens g \<noteq> []" using Cons.prems(2) by simp
  then have L1: "L1 = level g"
    using 1(1) by (auto simp: parseLine_def split: option.splits sum.splits)
  show ?case
  proof (cases "gs = []")
    case True
    then show ?thesis using 1(2) L1 by simp
  next
    case False
    then show ?thesis using Cons.IH [OF False _ 1(2)] Cons.prems(2) by simp
  qed
qed

lemma run_one_item:
  "Parse NewParser [NewTokenWithText TOKEN_LISTITEM a, NewToken TOKEN_EOL] =
   Some (Inr \<lparr>heap =
     [\<lparr>Kind = NODE_GROUP, Text = '''', Parent = None, Childs = [1]\<rparr>,
      \<lparr>Kind = NODE_LIST, Text = '''', Parent = Some 0, Childs = [2]\<rparr>,
      \<lparr>Kind = NODE_LISTITEM, Text = a, Parent = Some 1, Childs = []\<rparr>],
     root = 0, curr = 2, onAdd = None\<rparr>)"
  by (simp add: parse_eval)




end
